theory Spec2Isabelle
  imports Complex_Main "HOL-Library.AList" "HOL-Library.Char_ord" "HOL-Library.List_Lexorder"
    "HOL-Library.Sublist"
begin

section \<open>Strings\<close>

text \<open>
  A Python \<open>str\<close> is modelled as a \<open>string\<close> whose characters are the code points
  0..255 (Latin-1). On that range \<open>str.lower\<close>, \<open>str.isspace\<close> and the character
  classes of the regular expressions of \<open>organize_submissions.py\<close> are as below.
\<close>

definition lower_char :: "char \<Rightarrow> char" where
  "lower_char c =
     (let n = (of_char c :: nat)
      in if (65 \<le> n \<and> n \<le> 90) \<or> (192 \<le> n \<and> n \<le> 222 \<and> n \<noteq> 215)
         then char_of (n + 32) else c)"

definition lower :: "string \<Rightarrow> string" where
  "lower s = map lower_char s"

definition is_space :: "char \<Rightarrow> bool" where
  "is_space c = ((of_char c :: nat) \<in> {9, 10, 11, 12, 13, 28, 29, 30, 31, 32, 133, 160})"

definition is_lower_alnum :: "char \<Rightarrow> bool" where
  "is_lower_alnum c = (c \<in> set ''abcdefghijklmnopqrstuvwxyz0123456789'')"

definition is_folder_char :: "char \<Rightarrow> bool" where
  "is_folder_char c =
     (c \<in> set ''ABCDEFGHIJKLMNOPQRSTUVWXYZabcdefghijklmnopqrstuvwxyz0123456789_-'')"

text \<open>\<open>re.sub(r"\s+", " ", s)\<close>: every maximal run of whitespace becomes one space.\<close>

fun collapse_ws :: "bool \<Rightarrow> string \<Rightarrow> string" where
  "collapse_ws prev [] = []"
| "collapse_ws prev (c # cs) =
     (if is_space c then (if prev then collapse_ws True cs else CHR '' '' # collapse_ws True cs)
      else c # collapse_ws False cs)"

definition strip :: "string \<Rightarrow> string" where
  "strip s = rev (dropWhile is_space (rev (dropWhile is_space s)))"

text \<open>\<open>str.split()\<close> without arguments: the maximal runs of non-whitespace.\<close>

fun split_acc :: "string \<Rightarrow> string \<Rightarrow> string list" where
  "split_acc cur [] = (if cur = [] then [] else [rev cur])"
| "split_acc cur (c # cs) =
     (if is_space c then (if cur = [] then split_acc [] cs else rev cur # split_acc [] cs)
      else split_acc (c # cur) cs)"

definition split_ws :: "string \<Rightarrow> string list" where
  "split_ws s = split_acc [] s"

text \<open>\<open>sep.join(parts)\<close>.\<close>

fun join :: "string \<Rightarrow> string list \<Rightarrow> string" where
  "join sep [] = []"
| "join sep [p] = p"
| "join sep (p # q # ps) = p @ sep @ join sep (q # ps)"

definition startswith :: "string \<Rightarrow> string \<Rightarrow> bool" where
  "startswith s p = (take (length p) s = p)"

definition endswith :: "string \<Rightarrow> string \<Rightarrow> bool" where
  "endswith s p = (length p \<le> length s \<and> drop (length s - length p) s = p)"

text \<open>\<open>str(i)\<close> for a non-negative integer.\<close>

definition digit_char :: "nat \<Rightarrow> char" where
  "digit_char d = char_of (48 + d)"

fun str_nat :: "nat \<Rightarrow> string" where
  "str_nat n = (if n < 10 then [digit_char n] else str_nat (n div 10) @ [digit_char (n mod 10)])"

declare str_nat.simps [simp del]

section \<open>File system\<close>

text \<open>
  The directory tree, the working directory at its top: a regular file with its content, or a
  directory with its entries in the order \<open>os.scandir\<close> lists them. A directory is the
  finite map its association list denotes (the first entry of a name counts), and a
  listing gives each name once. A path is the list of its components;
  \<open>os.path.join(d, name)\<close> is \<open>d @ [name]\<close> for a name without a separator. Symbolic
  links, permissions and I/O faults are not modelled.
\<close>

type_synonym content = string
type_synonym path = "string list"

datatype node = File content | Dir "(string \<times> node) list"

datatype error = FileNotFoundError | FileExistsError | NotADirectoryError | IsADirectoryError

fun lookup :: "node \<Rightarrow> path \<Rightarrow> node option" where
  "lookup n [] = Some n"
| "lookup (File c) (x # xs) = None"
| "lookup (Dir es) (x # xs) = (case map_of es x of None \<Rightarrow> None | Some n \<Rightarrow> lookup n xs)"

definition path_exists :: "node \<Rightarrow> path \<Rightarrow> bool" where
  "path_exists fs p = (lookup fs p \<noteq> None)"

definition isfile :: "node \<Rightarrow> path \<Rightarrow> bool" where
  "isfile fs p = (case lookup fs p of Some (File c) \<Rightarrow> True | _ \<Rightarrow> False)"

definition isdir :: "node \<Rightarrow> path \<Rightarrow> bool" where
  "isdir fs p = (case lookup fs p of Some (Dir es) \<Rightarrow> True | _ \<Rightarrow> False)"

definition basename :: "path \<Rightarrow> string" where
  "basename p = (if p = [] then [] else last p)"

definition dirname :: "path \<Rightarrow> path" where
  "dirname p = butlast p"

text \<open>The names of a directory's entries, and \<open>os.listdir\<close>.\<close>

definition entry_names :: "(string \<times> node) list \<Rightarrow> string list" where
  "entry_names es = remdups (map fst es)"

definition listdir :: "node \<Rightarrow> path \<Rightarrow> error + string list" where
  "listdir fs p =
     (case lookup fs p of
        None \<Rightarrow> Inl FileNotFoundError
      | Some (File c) \<Rightarrow> Inl NotADirectoryError
      | Some (Dir es) \<Rightarrow> Inr (entry_names es))"

text \<open>
  \<open>put p v fs\<close> places the node \<open>v\<close> at \<open>p\<close> (a new entry goes last in its directory, an
  existing one is replaced where it stands); the parent of \<open>p\<close> must be a directory.
  \<open>remove p fs\<close> unlinks the entry at \<open>p\<close>.
\<close>

fun put :: "path \<Rightarrow> node \<Rightarrow> node \<Rightarrow> error + node" where
  "put [] v n = Inl IsADirectoryError"
| "put (x # xs) v (File c) = Inl NotADirectoryError"
| "put [x] v (Dir es) = Inr (Dir (AList.update x v es))"
| "put (x # y # ys) v (Dir es) =
     (case map_of es x of
        None \<Rightarrow> Inl FileNotFoundError
      | Some n \<Rightarrow>
          (case put (y # ys) v n of
             Inl e \<Rightarrow> Inl e
           | Inr n' \<Rightarrow> Inr (Dir (AList.update x n' es))))"

fun remove :: "path \<Rightarrow> node \<Rightarrow> node" where
  "remove [] n = n"
| "remove (x # xs) (File c) = File c"
| "remove [x] (Dir es) = Dir (AList.delete x es)"
| "remove (x # y # ys) (Dir es) =
     (case map_of es x of
        None \<Rightarrow> Dir es
      | Some n \<Rightarrow> Dir (AList.update x (remove (y # ys) n) es))"

text \<open>Opening a file for writing and writing \<open>c\<close>: creates or truncates.\<close>

definition write_file :: "node \<Rightarrow> path \<Rightarrow> content \<Rightarrow> error + node" where
  "write_file fs p c = (if isdir fs p then Inl IsADirectoryError else put p (File c) fs)"

text \<open>
  Creating the missing directories of a path, as the archive libraries do for the
  directories of a member (\<open>os.makedirs\<close> on a path without \<open>.\<close> and \<open>..\<close>): it raises
  when \<open>p\<close> is a regular file (\<open>FileExistsError\<close>) or lies below one
  (\<open>NotADirectoryError\<close>). The calls of \<open>os.makedirs\<close> that the program itself makes are
  \<open>os_makedirs\<close> below.
\<close>

fun makedirs_at :: "node \<Rightarrow> path \<Rightarrow> error + node" where
  "makedirs_at (File c) [] = Inl FileExistsError"
| "makedirs_at (File c) (x # xs) = Inl NotADirectoryError"
| "makedirs_at (Dir es) [] = Inr (Dir es)"
| "makedirs_at (Dir es) (x # xs) =
     (case makedirs_at (case map_of es x of None \<Rightarrow> Dir [] | Some n \<Rightarrow> n) xs of
        Inl e \<Rightarrow> Inl e
      | Inr n' \<Rightarrow> Inr (Dir (AList.update x n' es)))"

definition makedirs :: "node \<Rightarrow> path \<Rightarrow> error + node" where
  "makedirs fs p = makedirs_at fs p"

text \<open>
  \<open>shutil.copy2(src, dst)\<close> and \<open>shutil.move(src, dst)\<close>; a destination that is a
  directory receives the file under the source's base name.
\<close>

definition copy2 :: "node \<Rightarrow> path \<Rightarrow> path \<Rightarrow> error + node" where
  "copy2 fs src dst =
     (case lookup fs src of
        None \<Rightarrow> Inl FileNotFoundError
      | Some (Dir es) \<Rightarrow> Inl IsADirectoryError
      | Some (File c) \<Rightarrow>
          write_file fs (if isdir fs dst then dst @ [basename src] else dst) c)"

definition move :: "node \<Rightarrow> path \<Rightarrow> path \<Rightarrow> error + node" where
  "move fs src dst =
     (case lookup fs src of
        None \<Rightarrow> Inl FileNotFoundError
      | Some n \<Rightarrow>
          if isdir fs dst
          then (if path_exists fs (dst @ [basename src]) then Inl FileExistsError
                else map_sum id (remove src) (put (dst @ [basename src]) n fs))
          else map_sum id (remove src) (put dst n fs))"

text \<open>\<open>os.rmdir\<close> inside \<open>try ... except OSError: pass\<close>: only an empty directory goes.\<close>

definition rmdir_quiet :: "node \<Rightarrow> path \<Rightarrow> node" where
  "rmdir_quiet fs p = (case lookup fs p of Some (Dir []) \<Rightarrow> remove p fs | _ \<Rightarrow> fs)"

text \<open>
  \<open>os.walk(top)\<close>, as the list of the triples \<open>(root, dirs, files)\<close> it yields on the tree
  as it stands when the walk starts. The generator lists a directory only when it
  reaches it, and the loops of this program change the tree while they iterate; but
  each of them changes, at a triple, only entries the walk has listed already (files
  moved out of \<open>root\<close>, children of \<open>root\<close> removed, a new file added to \<open>root\<close>), or the
  top directory, listed first, so the triples are those of the starting tree.
\<close>

definition entry_is_dir :: "(string \<times> node) list \<Rightarrow> string \<Rightarrow> bool" where
  "entry_is_dir es x = (case map_of es x of Some (Dir ds) \<Rightarrow> True | _ \<Rightarrow> False)"

definition subdirs :: "(string \<times> node) list \<Rightarrow> string list" where
  "subdirs es = filter (entry_is_dir es) (entry_names es)"

definition nondirs :: "(string \<times> node) list \<Rightarrow> string list" where
  "nondirs es = filter (\<lambda>x. \<not> entry_is_dir es x) (entry_names es)"

function walk_node :: "bool \<Rightarrow> path \<Rightarrow> node \<Rightarrow> (path \<times> string list \<times> string list) list" where
  "walk_node topdown start (File c) = []"
| "walk_node topdown start (Dir es) =
     (let here = [(start, subdirs es, nondirs es)];
          below = concat (map (\<lambda>d. case map_of es d of
                                      None \<Rightarrow> []
                                    | Some n \<Rightarrow> walk_node topdown (start @ [d]) n)
                              (subdirs es))
      in if topdown then here @ below else below @ here)"
  by pat_completeness auto

lemma map_of_size_less:
  "map_of es d = Some n \<Longrightarrow> size n < Suc (size_list (size_prod (\<lambda>x. 0) size) es)"
  by (induction es) (auto split: if_splits)

termination walk_node
  apply (relation "measure (\<lambda>(t, p, n). size n)")
   apply simp
  apply (auto dest!: map_of_size_less)
  done

definition walk :: "node \<Rightarrow> path \<Rightarrow> bool \<Rightarrow> (path \<times> string list \<times> string list) list" where
  "walk fs start topdown =
     (case lookup fs start of None \<Rightarrow> [] | Some n \<Rightarrow> walk_node topdown start n)"

subsection \<open>Path names\<close>

text \<open>
  The folder of a matched record is named by a string built from the roster, which may
  hold separators and the components \<open>.\<close> and \<open>..\<close>. Such a name is kept as the list of its
  non-empty components (\<open>a//b\<close> and \<open>a/b\<close> name the same file), and the system calls
  read it as the kernel does: one component after the other, each from a directory,
  \<open>..\<close> leading to the parent. The working directory is the top of the tree, as when
  the program runs in the root directory of the file system: a relative and an absolute
  name are read from the same place and \<open>..\<close> at the top stays there. Without symbolic
  links a name that can be read leads to \<open>abspath\<close> of it.
\<close>

fun split_sep :: "string \<Rightarrow> string list" where
  "split_sep [] = [[]]"
| "split_sep (c # cs) =
     (if c = CHR ''/'' then [] # split_sep cs
      else (case split_sep cs of [] \<Rightarrow> [[c]] | w # ws \<Rightarrow> (c # w) # ws))"

definition components :: "string \<Rightarrow> path" where
  "components s = filter (\<lambda>c. c \<noteq> []) (split_sep s)"

text \<open>\<open>os.path.join(d, name)\<close>: a name that starts with a separator replaces \<open>d\<close>.\<close>

definition join_name :: "path \<Rightarrow> string \<Rightarrow> path" where
  "join_name d name = (if startswith name ''/'' then components name else d @ components name)"

definition follow :: "path \<Rightarrow> string \<Rightarrow> path" where
  "follow cur c = (if c = ''.'' then cur else if c = ''..'' then butlast cur else cur @ [c])"

definition abspath :: "path \<Rightarrow> path" where
  "abspath name = foldl follow [] name"

text \<open>
  \<open>resolve fs cur name\<close>: where the kernel arrives when it reads \<open>name\<close> from the directory
  \<open>cur\<close>. Every component is looked up in a directory; the last one need not exist.
\<close>

fun resolve :: "node \<Rightarrow> path \<Rightarrow> path \<Rightarrow> error + path" where
  "resolve fs cur [] = Inr cur"
| "resolve fs cur (c # cs) =
     (case lookup fs cur of
        None \<Rightarrow> Inl FileNotFoundError
      | Some (File x) \<Rightarrow> Inl NotADirectoryError
      | Some (Dir es) \<Rightarrow> resolve fs (follow cur c) cs)"

definition exists_at :: "node \<Rightarrow> path \<Rightarrow> bool" where
  "exists_at fs name = (case resolve fs [] name of Inl e \<Rightarrow> False | Inr p \<Rightarrow> path_exists fs p)"

definition isdir_at :: "node \<Rightarrow> path \<Rightarrow> bool" where
  "isdir_at fs name = (case resolve fs [] name of Inl e \<Rightarrow> False | Inr p \<Rightarrow> isdir fs p)"

definition mkdir :: "node \<Rightarrow> path \<Rightarrow> error + node" where
  "mkdir fs name =
     (case resolve fs [] name of
        Inl e \<Rightarrow> Inl e
      | Inr p \<Rightarrow> if path_exists fs p then Inl FileExistsError else put p (Dir []) fs)"

text \<open>
  \<open>os.makedirs(name, exist_ok=True)\<close> on a name, as the library writes it: when the head
  of the name does not exist it is made first (a \<open>FileExistsError\<close> of that call is
  passed over, any other exception leaves), a name that ends in \<open>.\<close> is then done, and
  at last \<open>mkdir(name)\<close> is called, whose exception is passed over when the name is a
  directory. The result is the tree and the exception that leaves, if any.
\<close>

definition mkdir_exist_ok :: "node \<Rightarrow> path \<Rightarrow> node \<times> error option" where
  "mkdir_exist_ok fs name =
     (case mkdir fs name of
        Inr fs' \<Rightarrow> (fs', None)
      | Inl e \<Rightarrow> (fs, if isdir_at fs name then None else Some e))"

function makedirs_st :: "node \<Rightarrow> path \<Rightarrow> node \<times> error option" where
  "makedirs_st fs name =
     (if butlast name \<noteq> [] \<and> \<not> exists_at fs (butlast name)
      then (case makedirs_st fs (butlast name) of
              (fs1, raised) \<Rightarrow>
                if raised \<noteq> None \<and> raised \<noteq> Some FileExistsError then (fs1, raised)
                else if last name = ''.'' then (fs1, None)
                else mkdir_exist_ok fs1 name)
      else mkdir_exist_ok fs name)"
  by pat_completeness auto

termination makedirs_st
proof (relation "measure (\<lambda>(fs, name). length name)")
  show "wf (measure (\<lambda>(fs, name). length name))" by simp
next
  fix fs :: node and name :: path
  assume "butlast name \<noteq> [] \<and> \<not> exists_at fs (butlast name)"
  then have "name \<noteq> []" by auto
  then show "((fs, butlast name), (fs, name)) \<in> measure (\<lambda>(fs, name). length name)"
    by (cases name) auto
qed

declare makedirs_st.simps [simp del]

definition os_makedirs :: "node \<Rightarrow> path \<Rightarrow> error + node" where
  "os_makedirs fs name =
     (case makedirs_st fs name of (fs', None) \<Rightarrow> Inr fs' | (fs', Some e) \<Rightarrow> Inl e)"

text \<open>
  \<open>os.walk(name)\<close>: the walk of the directory the name leads to at that moment, nothing
  when it leads to none. The roots of the triples are written as paths from the top.
\<close>

definition walk_at :: "node \<Rightarrow> path \<Rightarrow> bool \<Rightarrow> (path \<times> string list \<times> string list) list" where
  "walk_at fs name topdown = (if isdir_at fs name then walk fs (abspath name) topdown else [])"

text \<open>A loop whose body may raise: the first exception ends it.\<close>

fun foldE :: "('a \<Rightarrow> 's \<Rightarrow> error + 's) \<Rightarrow> 'a list \<Rightarrow> 's \<Rightarrow> error + 's" where
  "foldE f [] s = Inr s"
| "foldE f (x # xs) s = (case f x s of Inl e \<Rightarrow> Inl e | Inr s' \<Rightarrow> foldE f xs s')"

text \<open>\<open>os.path.splitext\<close> of a file name: the extension starts at the last dot, unless
  only dots precede it.\<close>

definition splitext :: "string \<Rightarrow> string \<times> string" where
  "splitext f =
     (if CHR ''.'' \<notin> set f then (f, [])
      else let k = length f - length (takeWhile (\<lambda>c. c \<noteq> CHR ''.'') (rev f)) - 1
           in if \<forall>c \<in> set (take k f). c = CHR ''.'' then (f, [])
              else (take k f, drop k f))"

section \<open>Utilities\<close>

text \<open>
  \<open>normalize_text\<close>: lowercase, replace non-alphanumerics with a space, collapse spaces.
  Every caller passes a \<open>str\<close>, for which \<open>s or ""\<close> is \<open>s\<close>.
\<close>

definition normalize_text :: "string \<Rightarrow> string" where
  "normalize_text s =
     strip (collapse_ws False
       (map (\<lambda>c. if is_lower_alnum c then c else CHR '' '') (lower s)))"

definition tokens_from_name_field :: "string \<Rightarrow> string list" where
  "tokens_from_name_field field = filter (\<lambda>t. t \<noteq> []) (split_ws (normalize_text field))"

definition sanitize_folder_part :: "string \<Rightarrow> string" where
  "sanitize_folder_part s =
     (let s1 = strip s;
          s2 = map (\<lambda>c. if is_folder_char c then c else CHR ''_'') s1
      in if s2 = [] then ''unknown'' else s2)"

section \<open>Roster rows\<close>

text \<open>
  A row of \<open>csv.DictReader\<close> is a dictionary from column names to strings, kept as an
  association list in column order. \<open>row.get(k)\<close> is \<open>map_of row k\<close>; a key whose value
  is \<open>None\<close> (a short CSV line) behaves as an absent key in every use the program makes.
\<close>

type_synonym row = "(string \<times> string) list"

definition truthy :: "string option \<Rightarrow> bool" where
  "truthy v = (case v of None \<Rightarrow> False | Some s \<Rightarrow> s \<noteq> [])"

definition or_empty :: "string option \<Rightarrow> string" where
  "or_empty v = (case v of None \<Rightarrow> [] | Some s \<Rightarrow> s)"

definition name_fields :: "string list" where
  "name_fields = [''surname'', ''first_name'', ''middle_name'']"

text \<open>
  \<open>load_csv_rows\<close>, on the rows the CSV reader yields: a row without a (non-empty)
  \<open>index\<close> gets its 1-based position as \<open>_csv_index\<close>.
\<close>

fun load_rows_from :: "nat \<Rightarrow> row list \<Rightarrow> row list" where
  "load_rows_from idx [] = []"
| "load_rows_from idx (r # rs) =
     (if \<not> truthy (map_of r ''index'')
      then AList.update ''_csv_index'' (str_nat idx) r
      else r) # load_rows_from (idx + 1) rs"

definition load_csv_rows :: "row list \<Rightarrow> row list" where
  "load_csv_rows parsed = load_rows_from 1 parsed"

section \<open>Matching logic\<close>

text \<open>\<open>list(dict.fromkeys(tokens))\<close>: unique while preserving first-seen order.\<close>

definition dict_fromkeys :: "'a list \<Rightarrow> 'a list" where
  "dict_fromkeys xs = fold (\<lambda>x acc. if x \<in> set acc then acc else acc @ [x]) xs []"

definition row_tokens :: "row \<Rightarrow> string list" where
  "row_tokens row =
     dict_fromkeys (concat (map
       (\<lambda>field. if truthy (map_of row field)
                then tokens_from_name_field (or_empty (map_of row field)) else [])
       name_fields))"

definition count_token_matches :: "string set \<Rightarrow> row \<Rightarrow> nat" where
  "count_token_matches filename_tokens row =
     length (filter (\<lambda>t. t \<noteq> [] \<and> t \<in> filename_tokens) (row_tokens row))"

text \<open>
  The library and tool calls of the program are parameters of the model:
  \<^item> \<open>seq_ratio a b\<close> is \<open>SequenceMatcher(None, a, b).ratio()\<close> of \<open>difflib\<close>, the
    quotient \<open>2 * M / T\<close> of two small integers, kept as a real number;
  \<^item> \<open>format_2f r\<close> is the text of \<open>f"{r:.2f}"\<close>;
  \<^item> \<open>rarfile_available\<close> is the flag \<open>RARFILE_AVAILABLE\<close>;
  \<^item> \<open>zip_extractall c\<close> and \<open>rar_extractall c\<close> say what \<open>extractall\<close> does with an
    archive whose bytes are \<open>c\<close>: \<open>Extracted ms failed\<close> writes the members \<open>ms\<close>
    (relative path and content) in order and then raises when \<open>failed\<close> holds (a
    damaged archive: \<open>ms\<close> is what came out before the fault); \<open>CannotExec\<close> is
    \<open>rarfile.RarCannotExec\<close>, the missing \<open>unrar\<close> tool;
  \<^item> \<open>libreoffice_in_path\<close> is \<open>shutil.which("libreoffice")\<close>, and
    \<open>libreoffice_run name c\<close> the run of LibreOffice on a document with that name and
    content: a non-zero exit status, or the PDF it wrote (if any) under the same stem.
\<close>

datatype extraction = CannotExec | Extracted "(path \<times> content) list" bool

datatype conv_result = NonZeroExit | Finished "content option"

record externals =
  seq_ratio :: "string \<Rightarrow> string \<Rightarrow> real"
  format_2f :: "real \<Rightarrow> string"
  rarfile_available :: bool
  zip_extractall :: "content \<Rightarrow> extraction"
  rar_extractall :: "content \<Rightarrow> extraction"
  libreoffice_in_path :: bool
  libreoffice_run :: "string \<Rightarrow> content \<Rightarrow> conv_result"

definition fuzzy_ratio :: "externals \<Rightarrow> string \<Rightarrow> string \<Rightarrow> real" where
  "fuzzy_ratio ext a b = seq_ratio ext a b"

text \<open>The body of the token-match loop: a strictly greater count replaces the best.\<close>

definition token_step :: "string set \<Rightarrow> row \<Rightarrow> row option \<times> nat \<Rightarrow> row option \<times> nat" where
  "token_step fname_tokens row best =
     (let cnt = count_token_matches fname_tokens row
      in if cnt > snd best then (Some row, cnt) else best)"

text \<open>The two full-name variants of a row: \<open>[full, rev]\<close>.\<close>

definition name_variants :: "row \<Rightarrow> string list" where
  "name_variants row =
     (let parts = filter (\<lambda>v. v \<noteq> [])
                    (map (\<lambda>field. strip (or_empty (map_of row field))) name_fields);
          full = normalize_text (join '' '' parts);
          rv = (if full \<noteq> [] then join '' '' (rev (split_ws full)) else [])
      in [full, rv])"

definition variant_step ::
  "externals \<Rightarrow> string \<Rightarrow> row \<Rightarrow> string \<Rightarrow> real \<times> row option \<Rightarrow> real \<times> row option" where
  "variant_step ext norm_fname row variant best =
     (if variant = [] then best
      else let r = fuzzy_ratio ext norm_fname variant
           in if r > fst best then (r, Some row) else best)"

definition fuzzy_step ::
  "externals \<Rightarrow> string \<Rightarrow> row \<Rightarrow> real \<times> row option \<Rightarrow> real \<times> row option" where
  "fuzzy_step ext norm_fname row best =
     fold (variant_step ext norm_fname row) (name_variants row) best"

definition find_best_row_for_filename ::
  "externals \<Rightarrow> string \<Rightarrow> row list \<Rightarrow> int \<Rightarrow> real \<Rightarrow> row option \<times> string option" where
  "find_best_row_for_filename ext filename rows min_token_matches fuzzy_threshold =
     (let norm_fname = normalize_text filename;
          fname_tokens = set (split_ws norm_fname);
          (best_token_match, best_token_count) =
             fold (token_step fname_tokens) rows (None, 0)
      in if int best_token_count \<ge> min_token_matches
         then (best_token_match, Some ''token'')
         else let (best_ratio, best_row) =
                    fold (fuzzy_step ext norm_fname) rows (0, None)
              in if best_ratio \<ge> fuzzy_threshold
                 then (best_row, Some (''fuzzy('' @ format_2f ext best_ratio @ '')''))
                 else (None, None))"

section \<open>Collision-free names\<close>

text \<open>
  \<open>safe_copy\<close> and the flattening pass of \<open>extract_and_flatten_archive\<close> probe the names
  \<open>base_1ext\<close>, \<open>base_2ext\<close>, ... in a directory. The loops end because a directory has
  finitely many entries and the probed names differ from each other.
\<close>

lemma lookup_append:
  "lookup fs (p @ q) = (case lookup fs p of None \<Rightarrow> None | Some n \<Rightarrow> lookup n q)"
  by (induction fs p rule: lookup.induct) (auto split: option.splits)

lemma str_nat_nonempty: "str_nat n \<noteq> []"
  by (subst str_nat.simps) simp

lemma digit_char_inj: "a < 10 \<Longrightarrow> b < 10 \<Longrightarrow> digit_char a = digit_char b \<Longrightarrow> a = b"
proof -
  assume a: "a < 10" and b: "b < 10" and e: "digit_char a = digit_char b"
  from e have "(of_char (char_of (48 + a)) :: nat) = of_char (char_of (48 + b))"
    by (simp add: digit_char_def)
  with a b show ?thesis by (simp add: of_char_of)
qed

lemma str_nat_inj: "str_nat m = str_nat n \<Longrightarrow> m = n"
proof (induction m arbitrary: n rule: str_nat.induct)
  case (1 m)
  show ?case
  proof (cases "m < 10")
    case True
    then have lm: "length (str_nat m) = 1" by (subst str_nat.simps) simp
    show ?thesis
    proof (cases "n < 10")
      case True
      with \<open>m < 10\<close> 1(2) show ?thesis
        by (subst (asm) str_nat.simps, subst (asm) (2) str_nat.simps) (auto dest: digit_char_inj)
    next
      case False
      then have "length (str_nat n) \<ge> 2"
        using str_nat_nonempty[of "n div 10"]
        by (subst str_nat.simps) (cases "str_nat (n div 10)"; simp)
      with lm 1(2) show ?thesis by simp
    qed
  next
    case False
    note mbig = this
    show ?thesis
    proof (cases "n < 10")
      case True
      then have ln: "length (str_nat n) = 1" by (subst str_nat.simps) simp
      from mbig have "length (str_nat m) \<ge> 2"
        using str_nat_nonempty[of "m div 10"]
        by (subst str_nat.simps) (cases "str_nat (m div 10)"; simp)
      with ln 1(2) show ?thesis by simp
    next
      case False
      from mbig False 1(2) have eq: "str_nat (m div 10) = str_nat (n div 10)"
        and d: "digit_char (m mod 10) = digit_char (n mod 10)"
        by (subst (asm) str_nat.simps, subst (asm) (2) str_nat.simps, simp)+
      from 1(1)[OF mbig eq] have "m div 10 = n div 10" .
      moreover from d have "m mod 10 = n mod 10" by (intro digit_char_inj) auto
      ultimately show ?thesis by (metis div_mult_mod_eq)
    qed
  qed
qed

definition suffixed :: "path \<Rightarrow> string \<Rightarrow> string \<Rightarrow> nat \<Rightarrow> path" where
  "suffixed dirpath base ext i = dirpath @ [base @ ''_'' @ str_nat i @ ext]"

lemma suffixed_inj: "suffixed d b e i = suffixed d b e j \<Longrightarrow> i = j"
  by (auto simp: suffixed_def dest: str_nat_inj)

lemma path_exists_child:
  "path_exists fs (d @ [x]) \<Longrightarrow> \<exists>es. lookup fs d = Some (Dir es) \<and> x \<in> fst ` set es"
proof -
  assume "path_exists fs (d @ [x])"
  then obtain n m where n: "lookup fs d = Some n" and m: "lookup n [x] = Some m"
    by (auto simp: path_exists_def lookup_append split: option.splits)
  from m obtain es where "n = Dir es" and "map_of es x = Some m"
    by (cases n) (auto split: option.splits)
  with n show ?thesis
    by (auto dest!: map_of_SomeD intro!: image_eqI[where x = "(x, m)"])
qed

lemma finite_suffixed: "finite {j. path_exists fs (suffixed d b e j)}"
proof (cases "\<exists>es. lookup fs d = Some (Dir es)")
  case True
  then obtain es where es: "lookup fs d = Some (Dir es)" by blast
  let ?f = "\<lambda>j. b @ ''_'' @ str_nat j @ e"
  have "?f ` {j. path_exists fs (suffixed d b e j)} \<subseteq> fst ` set es"
    using es by (auto simp: suffixed_def dest!: path_exists_child)
  then have "finite (?f ` {j. path_exists fs (suffixed d b e j)})"
    by (rule finite_subset) simp
  moreover have "inj_on ?f {j. path_exists fs (suffixed d b e j)}"
    by (auto simp: inj_on_def dest: str_nat_inj)
  ultimately show ?thesis by (rule finite_imageD)
next
  case False
  then have "{j. path_exists fs (suffixed d b e j)} = {}"
    by (auto simp: suffixed_def dest!: path_exists_child)
  then show ?thesis by simp
qed

definition taken_from :: "node \<Rightarrow> path \<Rightarrow> string \<Rightarrow> string \<Rightarrow> nat \<Rightarrow> nat set" where
  "taken_from fs d b e i = {j. i \<le> j \<and> path_exists fs (suffixed d b e j)}"

lemma finite_taken_from: "finite (taken_from fs d b e i)"
  by (rule finite_subset[OF _ finite_suffixed[of fs d b e]]) (auto simp: taken_from_def)

lemma taken_from_Suc:
  "path_exists fs (suffixed d b e i) \<Longrightarrow>
   card (taken_from fs d b e (Suc i)) < card (taken_from fs d b e i)"
proof (rule psubset_card_mono[OF finite_taken_from])
  assume ex: "path_exists fs (suffixed d b e i)"
  have "i \<in> taken_from fs d b e i" "i \<notin> taken_from fs d b e (Suc i)"
    using ex by (auto simp: taken_from_def)
  moreover have "taken_from fs d b e (Suc i) \<subseteq> taken_from fs d b e i"
    by (auto simp: taken_from_def)
  ultimately show "taken_from fs d b e (Suc i) \<subset> taken_from fs d b e i" by blast
qed

lemma taken_from_Suc_le:
  "card (taken_from fs d b e (Suc i)) \<le> card (taken_from fs d b e i)"
  by (rule card_mono[OF finite_taken_from]) (auto simp: taken_from_def)

function safe_copy_loop :: "node \<Rightarrow> path \<Rightarrow> string \<Rightarrow> string \<Rightarrow> path \<Rightarrow> nat \<Rightarrow> path" where
  "safe_copy_loop fs dirpath base ext candidate i =
     (if path_exists fs candidate
      then safe_copy_loop fs dirpath base ext (suffixed dirpath base ext i) (i + 1)
      else candidate)"
  by pat_completeness auto
termination
  apply (relation "measure (\<lambda>(fs, d, b, e, c, i).
           2 * card (taken_from fs d b e i) + (if path_exists fs c then 1 else 0))")
   apply simp
  subgoal for fs d b e c i
    using taken_from_Suc[of fs d b e i] taken_from_Suc_le[of fs d b e i]
    by auto
  done

function first_free :: "node \<Rightarrow> path \<Rightarrow> string \<Rightarrow> string \<Rightarrow> nat \<Rightarrow> path" where
  "first_free fs dirpath base ext i =
     (if \<not> path_exists fs (suffixed dirpath base ext i) then suffixed dirpath base ext i
      else first_free fs dirpath base ext (i + 1))"
  by pat_completeness auto
termination
  apply (relation "measure (\<lambda>(fs, d, b, e, i). card (taken_from fs d b e i))")
   apply simp
  subgoal for fs d b e i
    using taken_from_Suc[of fs d b e i] by auto
  done


text \<open>\<open>safe_copy\<close>: copy a file, handling collisions by adding a numeric suffix.\<close>

definition safe_copy :: "node \<Rightarrow> path \<Rightarrow> path \<Rightarrow> error + node \<times> path" where
  "safe_copy fs src dst =
     (let (base, ext) = splitext (basename dst);
          dirpath = dirname dst;
          candidate = safe_copy_loop fs dirpath base ext dst 1
      in map_sum id (\<lambda>fs'. (fs', candidate)) (copy2 fs src candidate))"

section \<open>Archive extraction and flattening\<close>

text \<open>
  \<open>extractall\<close>: each member is written below \<open>extract_to\<close>, its directories created on
  the way and an existing file overwritten, after the components \<open>""\<close>, \<open>"."\<close> and
  \<open>".."\<close> of its name are dropped (as \<open>zipfile\<close> does); a member that cannot be written
  raises. The result is the tree and whether the call returned normally.
\<close>

fun write_members :: "node \<Rightarrow> path \<Rightarrow> (path \<times> content) list \<Rightarrow> node \<times> bool" where
  "write_members fs extract_to [] = (fs, True)"
| "write_members fs extract_to ((name, c) # ms) =
     (let rel = filter (\<lambda>x. x \<noteq> [] \<and> x \<noteq> ''.'' \<and> x \<noteq> ''..'') name
      in case makedirs fs (extract_to @ butlast rel) of
           Inl e \<Rightarrow> (fs, False)
         | Inr fs1 \<Rightarrow>
             (case write_file fs1 (extract_to @ rel) c of
                Inl e \<Rightarrow> (fs1, False)
              | Inr fs2 \<Rightarrow> write_members fs2 extract_to ms))"

definition extractall :: "extraction \<Rightarrow> node \<Rightarrow> path \<Rightarrow> node \<times> bool" where
  "extractall x fs extract_to =
     (case x of
        CannotExec \<Rightarrow> (fs, False)
      | Extracted ms failed \<Rightarrow>
          (let (fs', ok) = write_members fs extract_to ms in (fs', ok \<and> \<not> failed)))"

definition read_archive :: "(content \<Rightarrow> extraction) \<Rightarrow> node \<Rightarrow> path \<Rightarrow> extraction" where
  "read_archive codec fs archive_path =
     (case lookup fs archive_path of
        Some (File c) \<Rightarrow> codec c
      | _ \<Rightarrow> Extracted [] True)"

text \<open>The body of the flattening loop, for the file \<open>f\<close> of the directory \<open>root\<close> (here \<open>rootp\<close>).\<close>

definition flatten_file :: "path \<Rightarrow> path \<Rightarrow> string \<Rightarrow> node \<Rightarrow> error + node" where
  "flatten_file extract_to rootp f fs =
     (let src = rootp @ [f];
          dst = extract_to @ [f]
      in if src \<noteq> dst
         then (let dst' = (if path_exists fs dst
                           then (let (base, ext) = splitext f
                                 in first_free fs extract_to base ext 1)
                           else dst)
               in move fs src dst')
         else Inr fs)"

text \<open>
  \<open>extract_to\<close> is a name. Once \<open>os.makedirs(extract_to)\<close> has returned it leads to the
  directory \<open>abspath extract_to\<close>, and goes on doing so as long as no directory on its way
  is removed: the extraction and the first loop (files are written and moved) address
  that directory by its path. The second loop removes directories, possibly one on the
  way of the name (a name such as \<open>d/sub/../../d\<close>); from then on \<open>os.rmdir\<close> fails on every
  name that starts with \<open>extract_to\<close>, so each removal reads the name again.
\<close>

definition flatten_files :: "path \<Rightarrow> node \<Rightarrow> error + node" where
  "flatten_files extract_to fs =
     foldE (\<lambda>(rootp, dirs, files). foldE (flatten_file (abspath extract_to) rootp) files)
       (walk_at fs extract_to True) fs"

definition remove_empty_dirs :: "path \<Rightarrow> node \<Rightarrow> node" where
  "remove_empty_dirs extract_to fs =
     fold (\<lambda>(rootp, dirs, files) fs1.
             fold (\<lambda>d fs2. if isdir_at fs2 extract_to then rmdir_quiet fs2 (rootp @ [d]) else fs2)
               dirs fs1)
       (walk_at fs extract_to False) fs"

definition flatten :: "path \<Rightarrow> node \<Rightarrow> error + node" where
  "flatten extract_to fs = map_sum id (remove_empty_dirs extract_to) (flatten_files extract_to fs)"

definition extract_and_flatten_archive :: "externals \<Rightarrow> node \<Rightarrow> path \<Rightarrow> path \<Rightarrow> error + node" where
  "extract_and_flatten_archive ext fs archive_path extract_to =
     (case os_makedirs fs extract_to of
        Inl e \<Rightarrow> Inl e
      | Inr fs0 \<Rightarrow>
          if endswith (lower (basename archive_path)) ''.zip''
          then flatten extract_to
                 (fst (extractall (read_archive (zip_extractall ext) fs0 archive_path) fs0
                         (abspath extract_to)))
          else if endswith (lower (basename archive_path)) ''.rar''
          then (if \<not> rarfile_available ext then Inr fs0
                else (case extractall (read_archive (rar_extractall ext) fs0 archive_path)
                             fs0 (abspath extract_to) of
                        (fs1, ok) \<Rightarrow> if ok then flatten extract_to fs1 else Inr fs1))
          else flatten extract_to fs0)"

section \<open>DOCX to PDF conversion\<close>

definition pdf_name :: "string \<Rightarrow> string" where
  "pdf_name f = fst (splitext f) @ ''.pdf''"

definition libreoffice_convert_docx_to_pdf ::
  "externals \<Rightarrow> node \<Rightarrow> path \<Rightarrow> path \<Rightarrow> node \<times> path option" where
  "libreoffice_convert_docx_to_pdf ext fs docx_path out_dir =
     (if \<not> libreoffice_in_path ext then (fs, None)
      else case lookup fs docx_path of
             Some (File c) \<Rightarrow>
               (case libreoffice_run ext (basename docx_path) c of
                  NonZeroExit \<Rightarrow> (fs, None)
                | Finished out \<Rightarrow>
                    (let pdf_path = out_dir @ [pdf_name (basename docx_path)];
                         fs' = (case out of
                                  None \<Rightarrow> fs
                                | Some pdf \<Rightarrow>
                                    (case write_file fs pdf_path pdf of
                                       Inl e \<Rightarrow> fs
                                     | Inr fs1 \<Rightarrow> fs1))
                     in (fs', if path_exists fs' pdf_path then Some pdf_path else None)))
           | _ \<Rightarrow> (fs, None))"

section \<open>Main processing\<close>

definition INPUT_DIR :: path where
  "INPUT_DIR = [''submissions'']"

definition OUTPUT_DIR :: path where
  "OUTPUT_DIR = [''organized_submissions'']"

text \<open>
  The state of a run: the tree, the counters of \<open>stats\<close>, and (for the statements
  about the converter) the calls of \<open>libreoffice_convert_docx_to_pdf\<close> made so far,
  each with the document's path and the tree at the moment of the call, latest first.
  The \<open>print\<close> lines are not modelled.
\<close>

record run_state =
  tree :: node
  files_seen :: nat
  matched :: nat
  unmatched :: nat
  converted :: nat
  convert_failed :: nat
  skipped_existing_file :: nat
  conversions :: "(path \<times> node) list"

definition initial_state :: "node \<Rightarrow> run_state" where
  "initial_state fs =
     \<lparr>tree = fs, files_seen = 0, matched = 0, unmatched = 0, converted = 0,
      convert_failed = 0, skipped_existing_file = 0, conversions = []\<rparr>"

text \<open>The body of the conversion scan, for the file \<open>f\<close> of the directory \<open>root\<close> (here \<open>rootp\<close>).\<close>

definition convert_file :: "externals \<Rightarrow> path \<Rightarrow> string \<Rightarrow> run_state \<Rightarrow> run_state" where
  "convert_file ext rootp f st =
     (if endswith (lower f) ''.docx''
      then (let docx_full = rootp @ [f];
                pdf_expected = rootp @ [pdf_name f]
            in if path_exists (tree st) pdf_expected then st
               else (case libreoffice_convert_docx_to_pdf ext (tree st) docx_full rootp of
                       (fs', pdf_path) \<Rightarrow>
                         (let st' = st\<lparr>tree := fs',
                                         conversions := (docx_full, tree st) # conversions st\<rparr>
                          in if pdf_path \<noteq> None
                             then st'\<lparr>converted := converted st' + 1\<rparr>
                             else st'\<lparr>convert_failed := convert_failed st' + 1\<rparr>)))
      else st)"

definition convert_folder :: "externals \<Rightarrow> path \<Rightarrow> run_state \<Rightarrow> run_state" where
  "convert_folder ext target_folder st =
     fold (\<lambda>(rootp, dirs, files) st1. fold (convert_file ext rootp) files st1)
       (walk_at (tree st) target_folder True) st"

definition folder_name_of :: "row \<Rightarrow> string" where
  "folder_name_of matched_row =
     (let index = (if truthy (map_of matched_row ''index'')
                   then or_empty (map_of matched_row ''index'')
                   else or_empty (map_of matched_row ''_csv_index''));
          surname = or_empty (map_of matched_row ''surname'');
          first_name = or_empty (map_of matched_row ''first_name'')
      in index @ ''_'' @ sanitize_folder_part surname @ ''_'' @ sanitize_folder_part first_name)"

definition is_archive_name :: "string \<Rightarrow> bool" where
  "is_archive_name fname = (endswith (lower fname) ''.zip'' \<or> endswith (lower fname) ''.rar'')"

text \<open>
  Step 4 of the loop body: skip, extract or copy. It follows \<open>os.makedirs(target_folder)\<close>,
  so the name \<open>target_folder\<close> leads to the directory \<open>abspath target_folder\<close>.
\<close>

definition place_file :: "externals \<Rightarrow> string \<Rightarrow> path \<Rightarrow> run_state \<Rightarrow> error + run_state" where
  "place_file ext fname target_folder st =
     (let input_path = INPUT_DIR @ [fname];
          dest_path = abspath target_folder @ [basename input_path]
      in if path_exists (tree st) dest_path
         then Inr (st\<lparr>skipped_existing_file := skipped_existing_file st + 1\<rparr>)
         else if is_archive_name fname
         then map_sum id (\<lambda>fs'. st\<lparr>tree := fs'\<rparr>)
                (extract_and_flatten_archive ext (tree st) input_path target_folder)
         else map_sum id (\<lambda>(fs', copied). st\<lparr>tree := fs'\<rparr>)
                (safe_copy (tree st) input_path dest_path))"

text \<open>
  The body of the loop over the input directory. A matched row is selected by the
  matcher only for a non-empty name field, so it is a non-empty dictionary and
  \<open>not matched_row\<close> is \<open>matched_row is None\<close>.
\<close>

definition process_entry :: "externals \<Rightarrow> row list \<Rightarrow> string \<Rightarrow> run_state \<Rightarrow> error + run_state" where
  "process_entry ext rows fname st =
     (if startswith fname ''.'' then Inr st
      else let st1 = st\<lparr>files_seen := files_seen st + 1\<rparr>;
               input_path = INPUT_DIR @ [fname]
           in if \<not> isfile (tree st1) input_path then Inr st1
              else (case find_best_row_for_filename ext fname rows 2 (6 / 10) of
                      (None, how) \<Rightarrow> Inr (st1\<lparr>unmatched := unmatched st1 + 1\<rparr>)
                    | (Some matched_row, how) \<Rightarrow>
                        (let target_folder = join_name OUTPUT_DIR (folder_name_of matched_row)
                         in case os_makedirs (tree st1) target_folder of
                              Inl e \<Rightarrow> Inl e
                            | Inr fs1 \<Rightarrow>
                                (case place_file ext fname target_folder (st1\<lparr>tree := fs1\<rparr>) of
                                   Inl e \<Rightarrow> Inl e
                                 | Inr st2 \<Rightarrow>
                                     (let st3 = convert_folder ext target_folder st2
                                      in Inr (st3\<lparr>matched := matched st3 + 1\<rparr>))))))"

text \<open>
  \<open>organize_and_convert\<close>, on the rows the CSV reader yields for \<open>CSV_FILE\<close>: the final
  state, or the exception that ended the run.
\<close>

definition organize_and_convert :: "externals \<Rightarrow> row list \<Rightarrow> node \<Rightarrow> error + run_state" where
  "organize_and_convert ext parsed fs =
     (let rows = load_csv_rows parsed
      in case os_makedirs fs OUTPUT_DIR of
           Inl e \<Rightarrow> Inl e
         | Inr fs0 \<Rightarrow>
             (case listdir fs0 INPUT_DIR of
                Inl e \<Rightarrow> Inl e
              | Inr names \<Rightarrow> foldE (process_entry ext rows) (sort names) (initial_state fs0)))"

section \<open>A sample environment\<close>

text \<open>
  One environment for the worked examples below. Its similarity ratio is that of
  \<open>difflib\<close> where the two strings are equal (1) or share no character (0), the only
  cases the examples reach; every zip archive holds the one member \<open>sub/x.docx\<close>, every
  rar archive breaks after its first member \<open>sub/a.txt\<close>, and LibreOffice converts every
  document.
\<close>

definition sample_externals :: externals where
  "sample_externals =
     \<lparr>seq_ratio = (\<lambda>a b. if a = b then 1 else 0),
      format_2f = (\<lambda>r. if r = 1 then ''1.00'' else ''0.00''),
      rarfile_available = True,
      zip_extractall = (\<lambda>c. Extracted [([''sub'', ''x.docx''], c)] False),
      rar_extractall = (\<lambda>c. Extracted [([''sub'', ''a.txt''], c)] True),
      libreoffice_in_path = True,
      libreoffice_run = (\<lambda>name c. Finished (Some (''%PDF '' @ c)))\<rparr>"

section \<open>Properties of the matcher\<close>

subsection \<open>The token phase\<close>

lemma token_fold_stay:
  "\<forall>r \<in> set rows. count_token_matches ft r \<le> bc \<Longrightarrow>
   fold (token_step ft) rows (bm, bc) = (bm, bc)"
  by (induction rows) (auto simp: token_step_def)

lemma token_fold_pick:
  assumes "i < length rows"
    and "\<forall>r \<in> set rows. count_token_matches ft r \<le> count_token_matches ft (rows ! i)"
    and "\<forall>j < i. count_token_matches ft (rows ! j) < count_token_matches ft (rows ! i)"
    and "bc < count_token_matches ft (rows ! i)"
  shows "fold (token_step ft) rows (bm, bc) = (Some (rows ! i), count_token_matches ft (rows ! i))"
  using assms
proof (induction rows arbitrary: i bm bc)
  case Nil
  then show ?case by simp
next
  case (Cons r rs)
  show ?case
  proof (cases i)
    case 0
    with Cons.prems have "token_step ft r (bm, bc) = (Some r, count_token_matches ft r)"
      by (simp add: token_step_def)
    moreover from 0 Cons.prems have "\<forall>x \<in> set rs. count_token_matches ft x \<le> count_token_matches ft r"
      by simp
    ultimately show ?thesis using 0 by (simp add: token_fold_stay)
  next
    case (Suc k)
    let ?m = "count_token_matches ft (rs ! k)"
    from Suc Cons.prems have k: "k < length rs" by simp
    from Suc Cons.prems have le: "\<forall>x \<in> set rs. count_token_matches ft x \<le> ?m" by simp
    from Suc Cons.prems(3) have lt: "\<forall>j < k. count_token_matches ft (rs ! j) < ?m"
      by (metis Suc_less_eq nth_Cons_Suc)
    from Suc Cons.prems(3) have r: "count_token_matches ft r < ?m"
      by (metis nth_Cons_0 nth_Cons_Suc zero_less_Suc)
    from Suc Cons.prems(4) have bc: "bc < ?m" by simp
    obtain bm' bc' where st: "token_step ft r (bm, bc) = (bm', bc')" by (cases "token_step ft r (bm, bc)")
    then have "bc' < ?m" using r bc by (auto simp: token_step_def Let_def split: if_splits)
    from Cons.IH[OF k le lt this] st Suc show ?thesis by simp
  qed
qed


lemma dict_fromkeys_aux:
  "distinct acc \<Longrightarrow>
   distinct (fold (\<lambda>x acc. if x \<in> set acc then acc else acc @ [x]) xs acc) \<and>
   set (fold (\<lambda>x acc. if x \<in> set acc then acc else acc @ [x]) xs acc) = set acc \<union> set xs"
  by (induction xs arbitrary: acc) auto

lemma distinct_dict_fromkeys: "distinct (dict_fromkeys xs)"
  using dict_fromkeys_aux[of "[]" xs] by (simp add: dict_fromkeys_def)

lemma set_dict_fromkeys: "set (dict_fromkeys xs) = set xs"
  using dict_fromkeys_aux[of "[]" xs] by (simp add: dict_fromkeys_def)

definition field_tokens :: "row \<Rightarrow> string set" where
  "field_tokens row =
     (\<Union>field \<in> set name_fields.
        if truthy (map_of row field) then set (tokens_from_name_field (or_empty (map_of row field)))
        else {})"

lemma count_token_matches_card:
  "count_token_matches T row = card (field_tokens row \<inter> T)"
proof -
  have s: "set (row_tokens row) = field_tokens row"
    by (auto simp: row_tokens_def set_dict_fromkeys field_tokens_def split: if_splits)
  have ne: "[] \<notin> field_tokens row"
    by (auto simp: field_tokens_def tokens_from_name_field_def split: if_splits)
  have d: "distinct (row_tokens row)"
    by (simp add: row_tokens_def distinct_dict_fromkeys)
  have "count_token_matches T row = length (filter (\<lambda>t. t \<in> T) (row_tokens row))"
    unfolding count_token_matches_def using ne s
    by (intro arg_cong[where f = length] filter_cong) auto
  also have "\<dots> = card (set (filter (\<lambda>t. t \<in> T) (row_tokens row)))"
    using d by (simp add: distinct_card[symmetric] del: set_filter)
  also have "set (filter (\<lambda>t. t \<in> T) (row_tokens row)) = field_tokens row \<inter> T"
    using s by auto
  finally show ?thesis .
qed

text \<open>
  Claim C4, as amended. The token phase counts, for each record, the distinct name
  tokens of its surname, first name and middle name that occur in the filename's token
  set (\<open>count_token_matches\<close> is the number of elements of \<open>field_tokens r\<close> that are
  filename tokens). For \<open>min_token_matches \<ge> 1\<close>: when the highest count of the roster,
  first attained by the record at position \<open>i\<close>, is at least \<open>min_token_matches\<close>, the
  result is that record with the method \<open>token\<close>, whatever the similarity ratio is.
\<close>

theorem token_phase:
  assumes "1 \<le> min_token_matches"
    and "i < length rows"
    and "\<forall>r \<in> set rows. count_token_matches (set (split_ws (normalize_text filename))) r
            \<le> count_token_matches (set (split_ws (normalize_text filename))) (rows ! i)"
    and "\<forall>j < i. count_token_matches (set (split_ws (normalize_text filename))) (rows ! j)
            < count_token_matches (set (split_ws (normalize_text filename))) (rows ! i)"
    and "min_token_matches
            \<le> int (count_token_matches (set (split_ws (normalize_text filename))) (rows ! i))"
  shows "find_best_row_for_filename ext filename rows min_token_matches fuzzy_threshold
           = (Some (rows ! i), Some ''token'')
         \<and> (\<forall>r. count_token_matches (set (split_ws (normalize_text filename))) r
                = card (field_tokens r \<inter> set (split_ws (normalize_text filename))))"
proof -
  let ?ft = "set (split_ws (normalize_text filename))"
  from assms(1,5) have "0 < count_token_matches ?ft (rows ! i)" by simp
  from token_fold_pick[OF assms(2) assms(3) assms(4) this]
  have "fold (token_step ?ft) rows (None, 0) = (Some (rows ! i), count_token_matches ?ft (rows ! i))" .
  with assms(5) show ?thesis
    by (simp add: find_best_row_for_filename_def Let_def count_token_matches_card)
qed

text \<open>
  The spec's example shape: the second record has two tokens in the filename, the first
  only one.
\<close>

theorem token_phase_witness:
  "find_best_row_for_filename sample_externals ''7_Obrien_Maeve_report.docx''
     [[(''index'', ''3''), (''surname'', ''Maeve''), (''first_name'', ''Jones'')],
      [(''index'', ''7''), (''surname'', ''Obrien''), (''first_name'', ''Maeve'')]] 2 (6 / 10)
   = (Some [(''index'', ''7''), (''surname'', ''Obrien''), (''first_name'', ''Maeve'')], Some ''token'')"
proof -
  let ?rows = "[[(''index'', ''3''), (''surname'', ''Maeve''), (''first_name'', ''Jones'')],
      [(''index'', ''7''), (''surname'', ''Obrien''), (''first_name'', ''Maeve'')]]"
  let ?cnt = "count_token_matches (set (split_ws (normalize_text ''7_Obrien_Maeve_report.docx'')))"
  have c0: "?cnt (?rows ! 0) = 1" by code_simp
  have c1: "?cnt (?rows ! 1) = 2" by code_simp
  have h1: "(1::int) \<le> 2" by simp
  have h2: "(1::nat) < length ?rows" by simp
  have h3: "\<forall>r \<in> set ?rows. ?cnt r \<le> ?cnt (?rows ! 1)"
    using c0 c1 by simp
  have h4: "\<forall>j < 1. ?cnt (?rows ! j) < ?cnt (?rows ! 1)"
    using c0 c1 by simp
  have h5: "(2::int) \<le> int (?cnt (?rows ! 1))" using c1 by simp
  from token_phase[OF h1 h2 h3 h4 h5, of sample_externals "6 / 10"] show ?thesis by simp
qed

text \<open>
  Claim C4 as stated fails for \<open>min_token_matches = 0\<close>: the highest count of the roster
  is 0, which is at least 0, but the loop only takes a record with a count above 0, so
  the result is \<open>(None, "token")\<close> and not the roster's record.
\<close>

theorem token_phase_counterexample:
  "count_token_matches (set (split_ws (normalize_text ''report.pdf''))) [(''surname'', ''Smith'')] = 0
   \<and> find_best_row_for_filename sample_externals ''report.pdf'' [[(''surname'', ''Smith'')]] 0 (6 / 10)
       = (None, Some ''token'')"
  by code_simp

subsection \<open>The fuzzy phase\<close>

text \<open>The ratios computed for a record: one for each non-empty variant.\<close>

definition variant_ratios :: "externals \<Rightarrow> string \<Rightarrow> row \<Rightarrow> real list" where
  "variant_ratios ext norm_fname row =
     map (fuzzy_ratio ext norm_fname) (filter (\<lambda>v. v \<noteq> []) (name_variants row))"

lemma variant_fold_stay:
  "\<forall>x \<in> set (map (fuzzy_ratio ext nf) (filter (\<lambda>v. v \<noteq> []) vs)). x \<le> br \<Longrightarrow>
   fold (variant_step ext nf row) vs (br, bw) = (br, bw)"
  by (induction vs) (auto simp: variant_step_def Let_def)

lemma fuzzy_step_stay:
  "\<forall>x \<in> set (variant_ratios ext nf row). x \<le> br \<Longrightarrow> fuzzy_step ext nf row (br, bw) = (br, bw)"
  unfolding fuzzy_step_def variant_ratios_def by (rule variant_fold_stay)

lemma fuzzy_fold_stay:
  "\<forall>r \<in> set rows. \<forall>x \<in> set (variant_ratios ext nf r). x \<le> br \<Longrightarrow>
   fold (fuzzy_step ext nf) rows (br, bw) = (br, bw)"
  by (induction rows) (auto simp: fuzzy_step_stay)

text \<open>Within one row: the best ratio after the row is the larger of the old best and the
  row's ratios; the row is taken exactly when one of its ratios beats the old best.\<close>

lemma variant_fold_result:
  "fold (variant_step ext nf row) vs (br, bw) = (br', bw') \<Longrightarrow>
     (br' = br \<and> bw' = bw \<and> (\<forall>x \<in> set (map (fuzzy_ratio ext nf) (filter (\<lambda>v. v \<noteq> []) vs)). x \<le> br))
   \<or> (br < br' \<and> bw' = Some row \<and> br' \<in> set (map (fuzzy_ratio ext nf) (filter (\<lambda>v. v \<noteq> []) vs))
        \<and> (\<forall>x \<in> set (map (fuzzy_ratio ext nf) (filter (\<lambda>v. v \<noteq> []) vs)). x \<le> br'))"
proof (induction vs arbitrary: br bw)
  case Nil
  then show ?case by simp
next
  case (Cons v vs)
  obtain b1 w1 where st: "variant_step ext nf row v (br, bw) = (b1, w1)"
    by (cases "variant_step ext nf row v (br, bw)")
  with Cons.prems have f: "fold (variant_step ext nf row) vs (b1, w1) = (br', bw')" by simp
  note ih = Cons.IH[OF f]
  show ?case
  proof (cases "v \<noteq> [] \<and> br < fuzzy_ratio ext nf v")
    case True
    with st have e: "b1 = fuzzy_ratio ext nf v" "w1 = Some row"
      by (auto simp: variant_step_def Let_def)
    from ih True e show ?thesis by auto
  next
    case False
    with st have e: "b1 = br" "w1 = bw"
      by (auto simp: variant_step_def Let_def split: if_splits)
    from ih False e show ?thesis by (cases "v = []") auto
  qed
qed

lemma fuzzy_step_result:
  "fuzzy_step ext nf row (br, bw) = (br', bw') \<Longrightarrow>
     (br' = br \<and> bw' = bw \<and> (\<forall>x \<in> set (variant_ratios ext nf row). x \<le> br))
   \<or> (br < br' \<and> bw' = Some row \<and> br' \<in> set (variant_ratios ext nf row)
        \<and> (\<forall>x \<in> set (variant_ratios ext nf row). x \<le> br'))"
  unfolding fuzzy_step_def variant_ratios_def by (rule variant_fold_result)






subsection \<open>Nameless records and empty filenames\<close>

lemma token_fold_origin:
  "fold (token_step ft) rows (bm, bc) = (bm', bc') \<Longrightarrow>
   bm' = bm \<or> (\<exists>r \<in> set rows. bm' = Some r \<and> 0 < count_token_matches ft r)"
proof (induction rows arbitrary: bm bc)
  case Nil
  then show ?case by simp
next
  case (Cons r rs)
  obtain b1 c1 where st: "token_step ft r (bm, bc) = (b1, c1)"
    by (cases "token_step ft r (bm, bc)")
  then have "b1 = bm \<or> (b1 = Some r \<and> 0 < count_token_matches ft r)"
    by (auto simp: token_step_def Let_def split: if_splits)
  with Cons.IH[of b1 c1] Cons.prems st show ?case by auto
qed

lemma fuzzy_fold_origin:
  "fold (fuzzy_step ext nf) rows (br, bw) = (br', bw') \<Longrightarrow>
   bw' = bw \<or> (\<exists>r \<in> set rows. bw' = Some r \<and> variant_ratios ext nf r \<noteq> [])"
proof (induction rows arbitrary: br bw)
  case Nil
  then show ?case by simp
next
  case (Cons r rs)
  obtain b1 w1 where st: "fuzzy_step ext nf r (br, bw) = (b1, w1)"
    by (cases "fuzzy_step ext nf r (br, bw)")
  from fuzzy_step_result[OF st] have "w1 = bw \<or> (w1 = Some r \<and> variant_ratios ext nf r \<noteq> [])"
    by auto
  with Cons.IH[of b1 w1] Cons.prems st show ?case by auto
qed

lemma normalize_text_Nil: "normalize_text [] = []"
  by (simp add: normalize_text_def lower_def strip_def)

lemma nameless_count:
  assumes "\<forall>field \<in> set name_fields. \<not> truthy (map_of r field)"
  shows "count_token_matches ft r = 0"
  using assms by (simp add: count_token_matches_def row_tokens_def name_fields_def dict_fromkeys_def)

lemma nameless_variants:
  assumes "\<forall>field \<in> set name_fields. \<not> truthy (map_of r field)"
  shows "variant_ratios ext nf r = []"
proof -
  have "or_empty (map_of r field) = []" if "field \<in> set name_fields" for field
    using assms that by (auto simp: truthy_def or_empty_def split: option.splits)
  then have "map (\<lambda>field. strip (or_empty (map_of r field))) name_fields = [[], [], []]"
    by (simp add: name_fields_def strip_def)
  then show ?thesis
    by (simp add: variant_ratios_def name_variants_def normalize_text_Nil)
qed

lemma selected_row_named:
  assumes "fst (find_best_row_for_filename ext filename rows mtm thr) = Some r"
  shows "\<exists>field \<in> set name_fields. truthy (map_of r field)"
proof (rule ccontr)
  assume "\<not> ?thesis"
  then have nl: "\<forall>field \<in> set name_fields. \<not> truthy (map_of r field)" by simp
  let ?nf = "normalize_text filename"
  let ?ft = "set (split_ws ?nf)"
  obtain bm bc where tf: "fold (token_step ?ft) rows (None, 0) = (bm, bc)"
    by (cases "fold (token_step ?ft) rows (None, 0)")
  obtain br bw where ff: "fold (fuzzy_step ext ?nf) rows (0, None) = (br, bw)"
    by (cases "fold (fuzzy_step ext ?nf) rows (0, None)")
  from assms tf ff have "bm = Some r \<or> bw = Some r"
    by (auto simp: find_best_row_for_filename_def Let_def split: if_splits)
  then show False
  proof
    assume "bm = Some r"
    with token_fold_origin[OF tf] have "0 < count_token_matches ?ft r" by auto
    with nameless_count[OF nl] show False by simp
  next
    assume "bw = Some r"
    with fuzzy_fold_origin[OF ff] have "variant_ratios ext ?nf r \<noteq> []" by auto
    with nameless_variants[OF nl] show False by simp
  qed
qed

lemma empty_filename_no_row:
  assumes "normalize_text filename = []" and "\<forall>v. v \<noteq> [] \<longrightarrow> seq_ratio ext [] v = 0"
  shows "fst (find_best_row_for_filename ext filename rows mtm thr) = None"
    and "1 \<le> mtm \<Longrightarrow> 0 < thr \<Longrightarrow> find_best_row_for_filename ext filename rows mtm thr = (None, None)"
proof -
  have c0: "\<forall>r \<in> set rows. count_token_matches (set (split_ws [])) r \<le> 0"
    by (simp add: count_token_matches_def split_ws_def)
  have tf: "fold (token_step (set (split_ws []))) rows (None, 0) = (None, 0)"
    by (rule token_fold_stay[OF c0])
  have "\<forall>r \<in> set rows. \<forall>x \<in> set (variant_ratios ext [] r). x \<le> 0"
    using assms(2) by (auto simp: variant_ratios_def fuzzy_ratio_def)
  then have ff: "fold (fuzzy_step ext []) rows (0, None) = (0, None)"
    by (rule fuzzy_fold_stay)
  from tf ff assms(1) show "fst (find_best_row_for_filename ext filename rows mtm thr) = None"
    by (simp add: find_best_row_for_filename_def Let_def)
  from tf ff assms(1)
  show "1 \<le> mtm \<Longrightarrow> 0 < thr \<Longrightarrow> find_best_row_for_filename ext filename rows mtm thr = (None, None)"
    by (simp add: find_best_row_for_filename_def Let_def)
qed

text \<open>
  Claim C7. A record whose name fields are all absent or empty is never the record
  returned, for every roster, filename and parameters. A filename that normalizes to the
  empty string gets no record (given that \<open>difflib\<close> rates the empty string against a
  non-empty one at 0), and for \<open>min_token_matches \<ge> 1\<close> and \<open>fuzzy_threshold > 0\<close>, as in
  the program's call, the result is exactly \<open>(None, None)\<close>. The model of the matcher has
  no error result: none of its steps can raise on strings.
\<close>

theorem nameless_record_and_empty_filename:
  "((\<forall>field \<in> set name_fields. \<not> truthy (map_of r field))
      \<longrightarrow> fst (find_best_row_for_filename ext filename rows min_token_matches fuzzy_threshold)
            \<noteq> Some r)
   \<and> (normalize_text filename = [] \<and> (\<forall>v. v \<noteq> [] \<longrightarrow> seq_ratio ext [] v = 0)
      \<longrightarrow> fst (find_best_row_for_filename ext filename rows min_token_matches fuzzy_threshold)
            = None
          \<and> (1 \<le> min_token_matches \<and> 0 < fuzzy_threshold
             \<longrightarrow> find_best_row_for_filename ext filename rows min_token_matches fuzzy_threshold
                   = (None, None)))"
proof (intro conjI impI)
  assume "\<forall>field \<in> set name_fields. \<not> truthy (map_of r field)"
  with selected_row_named[of ext filename rows min_token_matches fuzzy_threshold r]
  show "fst (find_best_row_for_filename ext filename rows min_token_matches fuzzy_threshold) \<noteq> Some r"
    by blast
next
  assume a: "normalize_text filename = [] \<and> (\<forall>v. v \<noteq> [] \<longrightarrow> seq_ratio ext [] v = 0)"
  then show "fst (find_best_row_for_filename ext filename rows min_token_matches fuzzy_threshold) = None"
    by (intro empty_filename_no_row(1)) simp_all
  assume "1 \<le> min_token_matches \<and> 0 < fuzzy_threshold"
  with a show "find_best_row_for_filename ext filename rows min_token_matches fuzzy_threshold = (None, None)"
    by (intro empty_filename_no_row(2)) simp_all
qed

theorem nameless_record_and_empty_filename_witness:
  "fst (find_best_row_for_filename sample_externals ''Smith''
          [[(''index'', ''1''), (''surname'', '''')], [(''surname'', ''Smith'')]] 2 (6 / 10))
     \<noteq> Some [(''index'', ''1''), (''surname'', '''')]
   \<and> normalize_text ''__(-).'' = []
   \<and> find_best_row_for_filename sample_externals ''__(-).''
          [[(''index'', ''1''), (''surname'', '''')], [(''surname'', ''Smith'')]] 2 (6 / 10)
     = (None, None)"
proof -
  let ?rows = "[[(''index'', ''1''), (''surname'', '''')], [(''surname'', ''Smith'')]] :: row list"
  have nameless: "\<forall>field \<in> set name_fields. \<not> truthy (map_of [(''index'', ''1''), (''surname'', '''')] field)"
    by (simp add: name_fields_def truthy_def)
  have n: "normalize_text ''__(-).'' = []" by code_simp
  have r: "\<forall>v. v \<noteq> [] \<longrightarrow> seq_ratio sample_externals [] v = 0"
    by (auto simp: sample_externals_def)
  from nameless_record_and_empty_filename
         [of "[(''index'', ''1''), (''surname'', '''')]" sample_externals "''Smith''" ?rows 2 "6 / 10"]
       nameless
  have 1: "fst (find_best_row_for_filename sample_externals ''Smith'' ?rows 2 (6 / 10))
     \<noteq> Some [(''index'', ''1''), (''surname'', '''')]" by blast
  from nameless_record_and_empty_filename
         [of "[]" sample_externals "''__(-).''" ?rows 2 "6 / 10"] n r
  have 2: "find_best_row_for_filename sample_externals ''__(-).'' ?rows 2 (6 / 10) = (None, None)"
    by simp
  from 1 n 2 show ?thesis by simp
qed

section \<open>Properties of the file system\<close>

text \<open>
  What \<open>os.stat\<close> tells about a path: a regular file with its content, or a directory.
  The operations on the tree are characterised by their effect on it.
\<close>

datatype kind = KFile content | KDir

fun kind_of :: "node \<Rightarrow> kind" where
  "kind_of (File c) = KFile c"
| "kind_of (Dir es) = KDir"

definition stat :: "node \<Rightarrow> path \<Rightarrow> kind option" where
  "stat fs p = map_option kind_of (lookup fs p)"

lemma path_exists_stat: "path_exists fs p \<longleftrightarrow> stat fs p \<noteq> None"
  by (simp add: path_exists_def stat_def)

lemma isdir_stat: "isdir fs p \<longleftrightarrow> stat fs p = Some KDir"
  by (auto simp: isdir_def stat_def split: option.splits node.splits)

lemma isfile_stat: "isfile fs p \<longleftrightarrow> (\<exists>c. stat fs p = Some (KFile c))"
  by (auto simp: isfile_def stat_def split: option.splits node.splits)

lemma lookup_File_stat: "lookup fs p = Some (File c) \<longleftrightarrow> stat fs p = Some (KFile c)"
proof (cases "lookup fs p")
  case None
  then show ?thesis by (simp add: stat_def)
next
  case (Some n)
  then show ?thesis by (cases n) (simp_all add: stat_def)
qed

lemma stat_Nil: "stat fs [] = Some (kind_of fs)"
  by (simp add: stat_def)

lemma stat_File_Cons [simp]: "stat (File c) (x # xs) = None"
  by (simp add: stat_def)

lemma stat_Dir_Cons:
  "stat (Dir es) (x # xs) = (case map_of es x of None \<Rightarrow> None | Some n \<Rightarrow> stat n xs)"
  by (simp add: stat_def split: option.splits)

lemma stat_below_nondir:
  "stat fs p \<noteq> Some KDir \<Longrightarrow> r \<noteq> [] \<Longrightarrow> stat fs (p @ r) = None"
proof -
  assume nd: "stat fs p \<noteq> Some KDir" and r: "r \<noteq> []"
  from r obtain x xs where rx: "r = x # xs" by (cases r) auto
  show ?thesis
  proof (cases "lookup fs p")
    case None
    then show ?thesis by (simp add: stat_def lookup_append)
  next
    case (Some n)
    with nd obtain c where "n = File c" by (cases n) (auto simp: stat_def)
    with Some rx show ?thesis by (simp add: stat_def lookup_append)
  qed
qed

lemma stat_prefix_dir:
  "stat fs (p @ r) \<noteq> None \<Longrightarrow> r \<noteq> [] \<Longrightarrow> stat fs p = Some KDir"
  by (rule ccontr) (simp add: stat_below_nondir)

text \<open>put\<close>

lemma put_ok_iff: "(\<exists>fs'. put p v fs = Inr fs') \<longleftrightarrow> p \<noteq> [] \<and> isdir fs (butlast p)"
proof (induction p v fs rule: put.induct)
  case (4 x y ys v es)
  then show ?case
    by (cases "map_of es x") (auto simp: isdir_def split: sum.splits)
qed (auto simp: isdir_def)

lemma put_stat:
  "put p v fs = Inr fs' \<Longrightarrow>
   stat fs' q = (if prefix p q then stat v (drop (length p) q)
                 else if prefix q p then Some KDir else stat fs q)"
proof (induction p v fs arbitrary: fs' q rule: put.induct)
  case (1 v n)
  then show ?case by simp
next
  case (2 x xs v c)
  then show ?case by simp
next
  case (3 x v es)
  then show ?case
    by (cases q) (auto simp: stat_Nil stat_Dir_Cons update_conv' stat_def)
next
  case (4 x y ys v es)
  from "4.prems" obtain n n' where n: "map_of es x = Some n"
    and p: "put (y # ys) v n = Inr n'" and fs': "fs' = Dir (AList.update x n' es)"
    by (auto split: option.splits sum.splits)
  note ih = "4.IH"[OF n p]
  show ?case
  proof (cases q)
    case Nil
    then show ?thesis by (simp add: fs' stat_Nil)
  next
    case (Cons z zs)
    show ?thesis
    proof (cases "z = x")
      case True
      then show ?thesis using ih[of zs] Cons n
        by (simp add: fs' stat_Dir_Cons update_conv')
    next
      case False
      then show ?thesis using Cons
        by (simp add: fs' stat_Dir_Cons update_conv')
    qed
  qed
qed

lemma put_file_stat:
  assumes "put p (File c) fs = Inr fs'" and "\<not> isdir fs p"
  shows "stat fs' q = (if q = p then Some (KFile c) else stat fs q)"
proof -
  note s = put_stat[OF assms(1), of q]
  show ?thesis
  proof (cases "prefix p q")
    case True
    then obtain r where q: "q = p @ r" by (auto simp: prefix_def)
    show ?thesis
    proof (cases "r = []")
      case True
      with s q show ?thesis by (simp add: stat_Nil)
    next
      case False
      from assms(2) have "stat fs p \<noteq> Some KDir" by (simp add: isdir_stat)
      from stat_below_nondir[OF this False] s q False show ?thesis
        by (cases r) (auto)
    qed
  next
    case False
    note np = this
    show ?thesis
    proof (cases "prefix q p")
      case True
      then obtain r where p: "p = q @ r" by (auto simp: prefix_def)
      with np have r: "r \<noteq> []" by auto
      from assms(1) have "p \<noteq> [] \<and> isdir fs (butlast p)" using put_ok_iff by blast
      then have "stat fs (butlast p) = Some KDir" by (simp add: isdir_stat)
      moreover from p r have "butlast p = q @ butlast r" by (simp add: butlast_append)
      ultimately have sq: "stat fs (q @ butlast r) = Some KDir" by simp
      have "stat fs q = Some KDir"
      proof (cases "butlast r = []")
        case True
        with sq show ?thesis by simp
      next
        case False
        from sq have "stat fs (q @ butlast r) \<noteq> None" by simp
        from stat_prefix_dir[OF this False] show ?thesis .
      qed
      with s np True p r show ?thesis by auto
    next
      case False
      with s np show ?thesis by auto
    qed
  qed
qed

text \<open>remove\<close>

lemma remove_stat:
  "p \<noteq> [] \<Longrightarrow> stat (remove p fs) q = (if prefix p q then None else stat fs q)"
proof (induction p fs arbitrary: q rule: remove.induct)
  case (1 n)
  then show ?case by simp
next
  case (2 x xs c)
  then show ?case by (cases q) (auto simp: stat_Nil)
next
  case (3 x es)
  then show ?case
    by (cases q) (auto simp: stat_Nil stat_Dir_Cons delete_conv')
next
  case (4 x y ys es)
  show ?case
  proof (cases "map_of es x")
    case None
    then show ?thesis by (cases q) (auto simp: stat_Nil stat_Dir_Cons)
  next
    case (Some n)
    with "4.IH"[OF Some] show ?thesis
      by (cases q) (auto simp: stat_Nil stat_Dir_Cons update_conv')
  qed
qed

text \<open>makedirs\<close>

lemma makedirs_stat:
  "makedirs fs p = Inr fs' \<Longrightarrow> stat fs' q = (if prefix q p then Some KDir else stat fs q)"
  unfolding makedirs_def
proof (induction fs p arbitrary: fs' q rule: makedirs_at.induct)
  case (1 c)
  then show ?case by simp
next
  case (2 c x xs)
  then show ?case by simp
next
  case (3 es)
  then show ?case by (cases q) (auto simp: stat_Nil)
next
  case (4 es x xs)
  let ?n = "case map_of es x of None \<Rightarrow> Dir [] | Some n \<Rightarrow> n"
  from "4.prems" obtain n' where m: "makedirs_at ?n xs = Inr n'"
    and fs': "fs' = Dir (AList.update x n' es)"
    by (auto split: sum.splits)
  note ih = "4.IH"[OF m]
  show ?case
  proof (cases q)
    case Nil
    then show ?thesis by (simp add: fs' stat_Nil)
  next
    case (Cons z zs)
    show ?thesis
    proof (cases "z = x")
      case True
      have "stat ?n zs = (case map_of es x of None \<Rightarrow> None | Some n \<Rightarrow> stat n zs)" if "\<not> prefix zs xs"
        using that by (cases "map_of es x"; cases zs) (auto simp: stat_Nil stat_Dir_Cons)
      then show ?thesis using ih[of zs] Cons True
        by (auto simp: fs' stat_Dir_Cons update_conv')
    next
      case False
      then show ?thesis using Cons
        by (simp add: fs' stat_Dir_Cons update_conv')
    qed
  qed
qed


section \<open>Properties of the placement\<close>

lemma first_free_spec:
  "\<exists>k \<ge> i. first_free fs d b e i = suffixed d b e k
      \<and> \<not> path_exists fs (suffixed d b e k)
      \<and> (\<forall>j. i \<le> j \<and> j < k \<longrightarrow> path_exists fs (suffixed d b e j))"
proof (induction fs d b e i rule: first_free.induct)
  case (1 fs d b e i)
  show ?case
  proof (cases "path_exists fs (suffixed d b e i)")
    case False
    then have "first_free fs d b e i = suffixed d b e i" by simp
    with False show ?thesis by (intro exI[of _ i]) auto
  next
    case True
    from "1.IH"[OF] True obtain k where k: "i + 1 \<le> k"
      "first_free fs d b e (i + 1) = suffixed d b e k"
      "\<not> path_exists fs (suffixed d b e k)"
      "\<forall>j. i + 1 \<le> j \<and> j < k \<longrightarrow> path_exists fs (suffixed d b e j)"
      by auto
    from True k(2) have "first_free fs d b e i = suffixed d b e k" by simp
    moreover have "\<forall>j. i \<le> j \<and> j < k \<longrightarrow> path_exists fs (suffixed d b e j)"
    proof (intro allI impI)
      fix j assume "i \<le> j \<and> j < k"
      then show "path_exists fs (suffixed d b e j)"
        using True k(4) by (cases "j = i") auto
    qed
    ultimately show ?thesis using k(1,3) by (intro exI[of _ k]) auto
  qed
qed

lemma safe_copy_loop_spec:
  "safe_copy_loop fs d b e cand i =
     (if \<not> path_exists fs cand then cand else first_free fs d b e i)"
proof (induction fs d b e cand i rule: safe_copy_loop.induct)
  case (1 fs d b e cand i)
  show ?case
  proof (cases "path_exists fs cand")
    case False
    then show ?thesis by simp
  next
    case True
    from "1.IH"[OF True] True show ?thesis
      by (subst safe_copy_loop.simps, subst first_free.simps) simp
  qed
qed

declare safe_copy_loop.simps [simp del] first_free.simps [simp del]

text \<open>
  \<open>collision_free fs dst cand\<close>: the name \<open>cand\<close> does not exist in \<open>fs\<close>, and it is \<open>dst\<close>
  when \<open>dst\<close> is free, and otherwise \<open>dst\<close> with \<open>_k\<close> inserted before its extension for the
  smallest \<open>k \<ge> 1\<close> whose name is free.
\<close>

definition collision_free :: "node \<Rightarrow> path \<Rightarrow> path \<Rightarrow> bool" where
  "collision_free fs dst cand \<longleftrightarrow>
     \<not> path_exists fs cand \<and>
     (if \<not> path_exists fs dst then cand = dst
      else (\<exists>k \<ge> 1.
              cand = suffixed (dirname dst) (fst (splitext (basename dst)))
                       (snd (splitext (basename dst))) k
              \<and> (\<forall>j. 1 \<le> j \<and> j < k \<longrightarrow>
                    path_exists fs (suffixed (dirname dst) (fst (splitext (basename dst)))
                                     (snd (splitext (basename dst))) j))))"

lemma safe_copy_loop_collision_free:
  "collision_free fs dst
     (safe_copy_loop fs (dirname dst) (fst (splitext (basename dst)))
        (snd (splitext (basename dst))) dst 1)"
proof (cases "path_exists fs dst")
  case False
  then show ?thesis by (simp add: collision_free_def safe_copy_loop_spec)
next
  case True
  from first_free_spec[of 1 fs "dirname dst" "fst (splitext (basename dst))"
      "snd (splitext (basename dst))"]
  show ?thesis using True by (auto simp: collision_free_def safe_copy_loop_spec)
qed

lemma first_free_collision_free:
  "path_exists fs dst \<Longrightarrow>
   collision_free fs dst
     (first_free fs (dirname dst) (fst (splitext (basename dst)))
        (snd (splitext (basename dst))) 1)"
  using first_free_spec[of 1 fs "dirname dst" "fst (splitext (basename dst))"
      "snd (splitext (basename dst))"]
  by (auto simp: collision_free_def)

lemma collision_free_parent:
  "collision_free fs dst cand \<Longrightarrow> dst \<noteq> [] \<Longrightarrow> cand \<noteq> [] \<and> butlast cand = dirname dst"
  by (auto simp: collision_free_def suffixed_def dirname_def split: if_splits)

lemma write_fresh:
  assumes "\<not> path_exists fs p" and "p \<noteq> []" and "isdir fs (butlast p)"
  shows "\<exists>fs'. write_file fs p c = Inr fs'
      \<and> (\<forall>q. stat fs' q = (if q = p then Some (KFile c) else stat fs q))"
proof -
  from assms(1) have nd: "\<not> isdir fs p" by (auto simp: path_exists_def isdir_def)
  from assms(2,3) obtain fs' where p: "put p (File c) fs = Inr fs'"
    using put_ok_iff[of p "File c" fs] by auto
  from put_file_stat[OF p nd] p nd show ?thesis by (simp add: write_file_def)
qed

lemma safe_copy_ok:
  assumes "lookup fs src = Some (File c)" and "dst \<noteq> []" and "isdir fs (dirname dst)"
  shows "\<exists>fs' cand. safe_copy fs src dst = Inr (fs', cand)
      \<and> collision_free fs dst cand
      \<and> (\<forall>q. stat fs' q = (if q = cand then Some (KFile c) else stat fs q))"
proof -
  let ?cand = "safe_copy_loop fs (dirname dst) (fst (splitext (basename dst)))
        (snd (splitext (basename dst))) dst 1"
  have cf: "collision_free fs dst ?cand" by (rule safe_copy_loop_collision_free)
  then have ne: "\<not> path_exists fs ?cand" by (simp add: collision_free_def)
  from collision_free_parent[OF cf assms(2)] assms(3)
  have "?cand \<noteq> []" "isdir fs (butlast ?cand)" by simp_all
  from write_fresh[OF ne this, of c] obtain fs' where
    w: "write_file fs ?cand c = Inr fs'"
    and s: "\<forall>q. stat fs' q = (if q = ?cand then Some (KFile c) else stat fs q)" by blast
  from ne have "\<not> isdir fs ?cand" by (auto simp: path_exists_def isdir_def)
  with w assms(1) have "copy2 fs src ?cand = Inr fs'" by (simp add: copy2_def)
  then have "safe_copy fs src dst = Inr (fs', ?cand)"
    by (simp add: safe_copy_def split_beta Let_def)
  with cf s show ?thesis by blast
qed

lemma flatten_file_ok:
  assumes "lookup fs (rootp @ [f]) = Some (File c)" and "rootp \<noteq> extract_to"
    and "isdir fs extract_to"
  shows "\<exists>fs' cand. flatten_file extract_to rootp f fs = Inr fs'
      \<and> collision_free fs (extract_to @ [f]) cand
      \<and> (\<forall>q. stat fs' q = (if q = cand then Some (KFile c)
                           else if q = rootp @ [f] then None else stat fs q))"
proof -
  let ?src = "rootp @ [f]" and ?dst = "extract_to @ [f]"
  let ?cand = "if path_exists fs ?dst
               then first_free fs extract_to (fst (splitext f)) (snd (splitext f)) 1 else ?dst"
  have cf: "collision_free fs ?dst ?cand"
    using first_free_collision_free[of fs ?dst]
    by (auto simp: collision_free_def dirname_def basename_def)
  then have ne: "\<not> path_exists fs ?cand" by (simp add: collision_free_def)
  from collision_free_parent[OF cf] assms(3)
  have c1: "?cand \<noteq> []" and c2: "isdir fs (butlast ?cand)" by (simp_all add: dirname_def)
  from ne have nd: "\<not> isdir fs ?cand" by (auto simp: path_exists_def isdir_def)
  from c1 c2 obtain fs1 where p: "put ?cand (File c) fs = Inr fs1"
    using put_ok_iff[of ?cand "File c" fs] by auto
  note s1 = put_file_stat[OF p nd]
  have srcne: "?src \<noteq> []" by simp
  have mv: "move fs ?src ?cand = Inr (remove ?src fs1)"
    unfolding move_def using assms(1) p nd by (simp del: if_split cong: if_cong)
  have "flatten_file extract_to rootp f fs = move fs ?src ?cand"
    using assms(2) by (simp add: flatten_file_def Let_def split_beta del: if_split cong: if_cong)
  with mv have fl: "flatten_file extract_to rootp f fs = Inr (remove ?src fs1)" by simp
  have isf: "stat fs ?src = Some (KFile c)" using assms(1) by (simp add: lookup_File_stat)
  have neq: "?cand \<noteq> ?src" using ne assms(1) by (auto simp: path_exists_def)
  have "stat (remove ?src fs1) q = (if q = ?cand then Some (KFile c)
                           else if q = ?src then None else stat fs q)" for q
  proof (cases "prefix ?src q")
    case True
    then obtain r where q: "q = ?src @ r" by (auto simp: prefix_def)
    show ?thesis
    proof (cases "r = []")
      case True
      with q neq show ?thesis by (simp add: remove_stat[OF srcne])
    next
      case False
      from isf have "stat fs ?src \<noteq> Some KDir" by simp
      from stat_below_nondir[OF this False] have qn: "stat fs q = None" by (simp add: q)
      have "q \<noteq> ?cand"
      proof
        assume "q = ?cand"
        with q have "butlast ?cand = ?src @ butlast r" using False by (simp add: butlast_append)
        with c2 have d: "stat fs (?src @ butlast r) = Some KDir" by (simp add: isdir_stat)
        show False
        proof (cases "butlast r = []")
          case True
          with d isf show False by simp
        next
          case False
          from stat_below_nondir[OF \<open>stat fs ?src \<noteq> Some KDir\<close> False] d show False by simp
        qed
      qed
      with True qn q False show ?thesis by (simp add: remove_stat[OF srcne])
    qed
  next
    case False
    then have "q \<noteq> ?src" by auto
    with False show ?thesis by (simp add: remove_stat[OF srcne] s1)
  qed
  with fl cf show ?thesis by blast
qed

text \<open>
  Claim C6. \<open>safe_copy\<close> of a regular file \<open>src\<close> to \<open>dst\<close> (in an existing directory), and
  the flattening pass's move of the file \<open>f\<close> of a nested directory \<open>rootp\<close> into
  \<open>extract_to\<close>, both succeed, write the file under the collision-free name, and leave
  every regular file that existed (but the moved one) in place with its content.
\<close>

theorem placement_never_overwrites:
  assumes "lookup fs src = Some (File c)"
  shows "(dst \<noteq> [] \<and> isdir fs (dirname dst) \<longrightarrow>
            (\<exists>fs' cand. safe_copy fs src dst = Inr (fs', cand)
               \<and> collision_free fs dst cand
               \<and> lookup fs' cand = Some (File c)
               \<and> (\<forall>q c'. lookup fs q = Some (File c') \<longrightarrow> lookup fs' q = Some (File c'))))
       \<and> (src = rootp @ [f] \<and> rootp \<noteq> extract_to \<and> isdir fs extract_to \<longrightarrow>
            (\<exists>fs' cand. flatten_file extract_to rootp f fs = Inr fs'
               \<and> collision_free fs (extract_to @ [f]) cand
               \<and> lookup fs' cand = Some (File c)
               \<and> (\<forall>q c'. q \<noteq> src \<and> lookup fs q = Some (File c') \<longrightarrow>
                     lookup fs' q = Some (File c'))))"
proof (intro conjI impI)
  assume "dst \<noteq> [] \<and> isdir fs (dirname dst)"
  with safe_copy_ok[OF assms, of dst] obtain fs' cand where
    r: "safe_copy fs src dst = Inr (fs', cand)" "collision_free fs dst cand"
    and s: "\<forall>q. stat fs' q = (if q = cand then Some (KFile c) else stat fs q)" by blast
  from r(2) have ne: "stat fs cand = None" by (simp add: collision_free_def path_exists_stat)
  have "lookup fs' cand = Some (File c)" using s by (simp add: lookup_File_stat)
  moreover have "\<forall>q c'. lookup fs q = Some (File c') \<longrightarrow> lookup fs' q = Some (File c')"
    using s ne by (auto simp: lookup_File_stat)
  ultimately show "\<exists>fs' cand. safe_copy fs src dst = Inr (fs', cand)
               \<and> collision_free fs dst cand
               \<and> lookup fs' cand = Some (File c)
               \<and> (\<forall>q c'. lookup fs q = Some (File c') \<longrightarrow> lookup fs' q = Some (File c'))"
    using r by blast
next
  assume a: "src = rootp @ [f] \<and> rootp \<noteq> extract_to \<and> isdir fs extract_to"
  with assms have l: "lookup fs (rootp @ [f]) = Some (File c)" by simp
  from a flatten_file_ok[OF l, of extract_to] obtain fs' cand where
    r: "flatten_file extract_to rootp f fs = Inr fs'" "collision_free fs (extract_to @ [f]) cand"
    and s: "\<forall>q. stat fs' q = (if q = cand then Some (KFile c)
                           else if q = rootp @ [f] then None else stat fs q)" by blast
  from r(2) have ne: "stat fs cand = None" by (simp add: collision_free_def path_exists_stat)
  have "lookup fs' cand = Some (File c)" using s by (simp add: lookup_File_stat)
  moreover have "\<forall>q c'. q \<noteq> src \<and> lookup fs q = Some (File c') \<longrightarrow> lookup fs' q = Some (File c')"
    using s ne a by (auto simp: lookup_File_stat)
  ultimately show "\<exists>fs' cand. flatten_file extract_to rootp f fs = Inr fs'
               \<and> collision_free fs (extract_to @ [f]) cand
               \<and> lookup fs' cand = Some (File c)
               \<and> (\<forall>q c'. q \<noteq> src \<and> lookup fs q = Some (File c') \<longrightarrow>
                     lookup fs' q = Some (File c'))"
    using r by blast
qed

definition crowded :: node where
  "crowded =
     Dir [(''in'', Dir [(''a.txt'', File ''new'')]),
          (''out'', Dir [(''a.txt'', File ''old''), (''a_1.txt'', File ''older''),
                         (''sub'', Dir [(''a.txt'', File ''nested'')])])]"

text \<open>Both \<open>a.txt\<close> and \<open>a_1.txt\<close> exist in \<open>out\<close>: the copy and the move go to \<open>a_2.txt\<close>.\<close>

theorem placement_never_overwrites_witness:
  "safe_copy crowded [''in'', ''a.txt''] [''out'', ''a.txt'']
     = Inr (Dir [(''in'', Dir [(''a.txt'', File ''new'')]),
                 (''out'', Dir [(''a.txt'', File ''old''), (''a_1.txt'', File ''older''),
                                (''sub'', Dir [(''a.txt'', File ''nested'')]),
                                (''a_2.txt'', File ''new'')])],
            [''out'', ''a_2.txt''])
   \<and> collision_free crowded [''out'', ''a.txt''] [''out'', ''a_2.txt'']
   \<and> flatten_file [''out''] [''out'', ''sub''] ''a.txt'' crowded
     = Inr (Dir [(''in'', Dir [(''a.txt'', File ''new'')]),
                 (''out'', Dir [(''a.txt'', File ''old''), (''a_1.txt'', File ''older''),
                                (''sub'', Dir []),
                                (''a_2.txt'', File ''nested'')])])
   \<and> (\<exists>fs' cand. flatten_file [''out''] [''out'', ''sub''] ''a.txt'' crowded = Inr fs'
         \<and> collision_free crowded [''out'', ''a.txt''] cand
         \<and> lookup fs' cand = Some (File ''nested''))"
proof -
  have l1: "lookup crowded [''in'', ''a.txt''] = Some (File ''new'')" by code_simp
  have l2: "lookup crowded [''out'', ''sub'', ''a.txt''] = Some (File ''nested'')" by code_simp
  have d1: "[''out'', ''a.txt''] \<noteq> [] \<and> isdir crowded (dirname [''out'', ''a.txt''])" by code_simp
  have e1: "safe_copy crowded [''in'', ''a.txt''] [''out'', ''a.txt'']
     = Inr (Dir [(''in'', Dir [(''a.txt'', File ''new'')]),
                 (''out'', Dir [(''a.txt'', File ''old''), (''a_1.txt'', File ''older''),
                                (''sub'', Dir [(''a.txt'', File ''nested'')]),
                                (''a_2.txt'', File ''new'')])],
            [''out'', ''a_2.txt''])" by code_simp
  have e2: "flatten_file [''out''] [''out'', ''sub''] ''a.txt'' crowded
     = Inr (Dir [(''in'', Dir [(''a.txt'', File ''new'')]),
                 (''out'', Dir [(''a.txt'', File ''old''), (''a_1.txt'', File ''older''),
                                (''sub'', Dir []),
                                (''a_2.txt'', File ''nested'')])])" by code_simp
  note t1 = placement_never_overwrites[OF l1, of "[''out'', ''a.txt'']", THEN conjunct1, THEN mp, OF d1]
  then obtain fs1 cand1 where
    "safe_copy crowded [''in'', ''a.txt''] [''out'', ''a.txt''] = Inr (fs1, cand1)"
    "collision_free crowded [''out'', ''a.txt''] cand1"
    by (elim exE conjE)
  with e1 have "collision_free crowded [''out'', ''a.txt''] [''out'', ''a_2.txt'']" by simp
  moreover have d2: "[''out'', ''sub'', ''a.txt''] = [''out'', ''sub''] @ [''a.txt'']
      \<and> [''out'', ''sub''] \<noteq> [''out''] \<and> isdir crowded [''out'']" by code_simp
  note t2 = placement_never_overwrites[OF l2, of "[]" "[''out'', ''sub'']" "''a.txt''" "[''out'']",
      THEN conjunct2, THEN mp, OF d2]
  then obtain fs' cand where
    "flatten_file [''out''] [''out'', ''sub''] ''a.txt'' crowded = Inr fs'"
    "collision_free crowded ([''out''] @ [''a.txt'']) cand"
    "lookup fs' cand = Some (File ''nested'')"
    by (elim exE conjE)
  then have "\<exists>fs' cand. flatten_file [''out''] [''out'', ''sub''] ''a.txt'' crowded = Inr fs'
         \<and> collision_free crowded [''out'', ''a.txt''] cand
         \<and> lookup fs' cand = Some (File ''nested'')"
    by (intro exI[of _ fs'] exI[of _ cand]) simp
  ultimately show ?thesis using e1 e2 by simp
qed

section \<open>Properties of the conversion scan\<close>

text \<open>
  \<open>conversions_justified st\<close>: every call of the converter recorded in \<open>st\<close> was made on
  a \<open>.docx\<close> name, at a moment when no entry with the same stem and the extension
  \<open>.pdf\<close> existed in the document's directory.
\<close>

definition conversions_justified :: "run_state \<Rightarrow> bool" where
  "conversions_justified st \<longleftrightarrow>
     (\<forall>(docx, fs_then) \<in> set (conversions st).
        endswith (lower (basename docx)) ''.docx''
        \<and> \<not> path_exists fs_then (dirname docx @ [pdf_name (basename docx)]))"

lemma convert_file_justified:
  "conversions_justified st \<Longrightarrow> conversions_justified (convert_file ext rootp f st)"
proof -
  assume j: "conversions_justified st"
  show ?thesis
  proof (cases "endswith (lower f) ''.docx'' \<and> \<not> path_exists (tree st) (rootp @ [pdf_name f])")
    case False
    with j show ?thesis by (auto simp: convert_file_def Let_def)
  next
    case True
    obtain fs' pdf_path where c: "libreoffice_convert_docx_to_pdf ext (tree st) (rootp @ [f]) rootp = (fs', pdf_path)"
      by (cases "libreoffice_convert_docx_to_pdf ext (tree st) (rootp @ [f]) rootp")
    have "conversions (convert_file ext rootp f st) = (rootp @ [f], tree st) # conversions st"
      using True c by (simp add: convert_file_def Let_def)
    with j True show ?thesis
      by (simp add: conversions_justified_def basename_def dirname_def)
  qed
qed

lemma convert_files_justified:
  "conversions_justified st \<Longrightarrow> conversions_justified (fold (convert_file ext rootp) files st)"
  by (induction files arbitrary: st) (auto intro: convert_file_justified)

lemma convert_triples_justified:
  "conversions_justified st \<Longrightarrow>
   conversions_justified
     (fold (\<lambda>(rootp, dirs, files) st1. fold (convert_file ext rootp) files st1) triples st)"
  by (induction triples arbitrary: st) (auto intro: convert_files_justified)

lemma convert_folder_justified:
  "conversions_justified st \<Longrightarrow> conversions_justified (convert_folder ext target st)"
  unfolding convert_folder_def by (rule convert_triples_justified)

lemma place_file_conversions:
  "place_file ext fname target st = Inr st' \<Longrightarrow> conversions st' = conversions st"
proof -
  assume a: "place_file ext fname target st = Inr st'"
  show ?thesis
  proof (cases "path_exists (tree st) (abspath target @ [basename (INPUT_DIR @ [fname])])")
    case True
    with a show ?thesis by (auto simp: place_file_def Let_def)
  next
    case False
    note ne = this
    show ?thesis
    proof (cases "is_archive_name fname")
      case True
      with ne a show ?thesis
        by (cases "extract_and_flatten_archive ext (tree st) (INPUT_DIR @ [fname]) target")
           (auto simp: place_file_def Let_def)
    next
      case False
      with ne a show ?thesis
        by (cases "safe_copy (tree st) (INPUT_DIR @ [fname])
                     (abspath target @ [basename (INPUT_DIR @ [fname])])")
           (auto simp: place_file_def Let_def)
    qed
  qed
qed

lemma process_entry_justified:
  assumes "process_entry ext rows fname st = Inr st'" and "conversions_justified st"
  shows "conversions_justified st'"
proof (cases "startswith fname ''.''")
  case True
  with assms show ?thesis by (simp add: process_entry_def)
next
  case False
  note nh = this
  let ?st1 = "st\<lparr>files_seen := files_seen st + 1\<rparr>"
  have j1: "conversions_justified ?st1" using assms(2) by (simp add: conversions_justified_def)
  show ?thesis
  proof (cases "isfile (tree ?st1) (INPUT_DIR @ [fname])")
    case False
    with nh assms(1) have "st' = ?st1" by (simp add: process_entry_def Let_def)
    with j1 show ?thesis by simp
  next
    case True
    note isf = this
    obtain m how where fb: "find_best_row_for_filename ext fname rows 2 (6 / 10) = (m, how)"
      by (cases "find_best_row_for_filename ext fname rows 2 (6 / 10)")
    show ?thesis
    proof (cases m)
      case None
      with nh isf fb assms(1) have "st' = ?st1\<lparr>unmatched := unmatched ?st1 + 1\<rparr>"
        by (simp add: process_entry_def Let_def)
      with j1 show ?thesis by (simp add: conversions_justified_def)
    next
      case (Some r)
      let ?t = "join_name OUTPUT_DIR (folder_name_of r)"
      from nh isf fb Some assms(1) obtain fs1 st2 where
        mk: "os_makedirs (tree ?st1) ?t = Inr fs1"
        and pl: "place_file ext fname ?t (?st1\<lparr>tree := fs1\<rparr>) = Inr st2"
        and st': "st' = (convert_folder ext ?t st2)\<lparr>matched := matched (convert_folder ext ?t st2) + 1\<rparr>"
        by (auto simp: process_entry_def Let_def split: sum.splits)
      from place_file_conversions[OF pl] j1 have "conversions_justified st2"
        by (simp add: conversions_justified_def)
      from convert_folder_justified[OF this] st' show ?thesis
        by (simp add: conversions_justified_def)
    qed
  qed
qed

lemma foldE_invariant:
  assumes "foldE f xs s = Inr s'" and "P s"
    and "\<And>x a b. f x a = Inr b \<Longrightarrow> P a \<Longrightarrow> P b"
  shows "P s'"
  using assms(1,2)
proof (induction xs arbitrary: s)
  case Nil
  then show ?case by simp
next
  case (Cons x xs)
  from Cons.prems(1) obtain s1 where f: "f x s = Inr s1" and r: "foldE f xs s1 = Inr s'"
    by (auto split: sum.splits)
  from assms(3)[OF f Cons.prems(2)] have "P s1" .
  from Cons.IH[OF r this] show ?case .
qed

text \<open>
  Claim C8. In every run that returns, each call of the converter was made on a
  \<open>.docx\<close> document whose \<open>.pdf\<close> sibling did not exist at the moment of the call; the
  same holds for a second run on the tree the first one left. So a document whose
  converted output is present is not converted again, within a run or across runs.
\<close>

theorem no_reconversion:
  "(organize_and_convert ext parsed fs = Inr st \<longrightarrow> conversions_justified st)
   \<and> (organize_and_convert ext parsed fs = Inr st
        \<and> organize_and_convert ext parsed (tree st) = Inr st2 \<longrightarrow> conversions_justified st2)"
proof -
  have main: "conversions_justified s'" if "organize_and_convert ext parsed t = Inr s'" for t s'
  proof -
    from that obtain fs0 names where
      f: "foldE (process_entry ext (load_csv_rows parsed)) (sort names) (initial_state fs0) = Inr s'"
      by (auto simp: organize_and_convert_def Let_def split: sum.splits)
    have "conversions_justified (initial_state fs0)"
      by (simp add: conversions_justified_def initial_state_def)
    from foldE_invariant[where P = conversions_justified, OF f this] process_entry_justified
    show ?thesis by blast
  qed
  then show ?thesis by blast
qed

text \<open>
  A sample run: one document, matched by its tokens, copied and converted; the second
  run skips the copy and converts nothing.
\<close>

definition inbox :: node where
  "inbox = Dir [(''submissions'', Dir [(''john smith.docx'', File ''essay'')])]"

definition roster1 :: "row list" where
  "roster1 = [[(''index'', ''7''), (''surname'', ''Smith''), (''first_name'', ''John'')]]"

definition organized :: node where
  "organized =
     Dir [(''submissions'', Dir [(''john smith.docx'', File ''essay'')]),
          (''organized_submissions'',
           Dir [(''7_Smith_John'',
                 Dir [(''john smith.docx'', File ''essay''),
                      (''john smith.pdf'', File ''%PDF essay'')])])]"

definition first_run :: run_state where
  "first_run =
     \<lparr>tree = organized,
      files_seen = 1, matched = 1, unmatched = 0, converted = 1,
      convert_failed = 0, skipped_existing_file = 0,
      conversions =
        [([''organized_submissions'', ''7_Smith_John'', ''john smith.docx''],
          Dir [(''submissions'', Dir [(''john smith.docx'', File ''essay'')]),
               (''organized_submissions'',
                Dir [(''7_Smith_John'', Dir [(''john smith.docx'', File ''essay'')])])])]\<rparr>"

definition second_run :: run_state where
  "second_run =
     \<lparr>tree = organized,
      files_seen = 1, matched = 1, unmatched = 0, converted = 0,
      convert_failed = 0, skipped_existing_file = 1, conversions = []\<rparr>"

lemma sample_first_run: "organize_and_convert sample_externals roster1 inbox = Inr first_run"
  by code_simp

lemma sample_second_run: "organize_and_convert sample_externals roster1 organized = Inr second_run"
  by code_simp

theorem no_reconversion_witness:
  "organize_and_convert sample_externals roster1 inbox = Inr first_run
   \<and> conversions_justified first_run
   \<and> organize_and_convert sample_externals roster1 (tree first_run) = Inr second_run
   \<and> conversions_justified second_run
   \<and> conversions second_run = []"
proof -
  have t: "tree first_run = organized" by (simp add: first_run_def)
  have r2: "organize_and_convert sample_externals roster1 (tree first_run) = Inr second_run"
    using sample_second_run by (simp add: t)
  note a = no_reconversion[of sample_externals roster1 inbox first_run second_run,
      THEN conjunct1, THEN mp, OF sample_first_run]
  note b = no_reconversion[of sample_externals roster1 inbox first_run second_run,
      THEN conjunct2, THEN mp, OF conjI[OF sample_first_run r2]]
  from a b sample_first_run r2 show ?thesis by (simp add: second_run_def)
qed

section \<open>Properties of the walk\<close>

lemma distinct_entry_names: "distinct (entry_names es)"
  by (simp add: entry_names_def)

lemma set_entry_names: "set (entry_names es) = fst ` set es"
  by (simp add: entry_names_def)

lemma in_nondirs: "f \<in> set (nondirs es) \<Longrightarrow> \<exists>c. map_of es f = Some (File c)"
proof -
  assume "f \<in> set (nondirs es)"
  then have m: "f \<in> fst ` set es" and nd: "\<not> entry_is_dir es f"
    by (auto simp: nondirs_def set_entry_names)
  from m obtain n where n: "map_of es f = Some n"
    by (cases "map_of es f") (auto simp: map_of_eq_None_iff)
  with nd show ?thesis by (cases n) (auto simp: entry_is_dir_def)
qed

lemma in_subdirs: "d \<in> set (subdirs es) \<Longrightarrow> \<exists>ds. map_of es d = Some (Dir ds)"
  by (auto simp: subdirs_def entry_is_dir_def split: option.splits node.splits)



lemma distinct_nondirs: "distinct (nondirs es)"
  by (simp add: nondirs_def distinct_entry_names)

lemma distinct_subdirs: "distinct (subdirs es)"
  by (simp add: subdirs_def distinct_entry_names)

text \<open>The triples of a walk, read against the tree.\<close>

lemma walk_node_sound:
  "(r, ds, fls) \<in> set (walk_node td start n) \<Longrightarrow>
   \<exists>p es. r = start @ p \<and> lookup n p = Some (Dir es) \<and> ds = subdirs es \<and> fls = nondirs es"
proof (induction td start n arbitrary: r ds fls rule: walk_node.induct)
  case (1 td start c)
  then show ?case by simp
next
  case (2 td start es)
  from "2.prems" have "(r, ds, fls) = (start, subdirs es, nondirs es)
      \<or> (\<exists>d \<in> set (subdirs es). \<exists>n. map_of es d = Some n
            \<and> (r, ds, fls) \<in> set (walk_node td (start @ [d]) n))"
    by (auto simp: Let_def split: if_splits option.splits)
  then show ?case
  proof
    assume "(r, ds, fls) = (start, subdirs es, nondirs es)"
    then show ?thesis by (intro exI[of _ "[]"] exI[of _ es]) simp
  next
    assume "\<exists>d \<in> set (subdirs es). \<exists>n. map_of es d = Some n
            \<and> (r, ds, fls) \<in> set (walk_node td (start @ [d]) n)"
    then obtain d n where d: "d \<in> set (subdirs es)" and n: "map_of es d = Some n"
      and w: "(r, ds, fls) \<in> set (walk_node td (start @ [d]) n)" by blast
    from "2.IH"[OF refl d n w] obtain p es' where
      "r = (start @ [d]) @ p" "lookup n p = Some (Dir es')" "ds = subdirs es'" "fls = nondirs es'"
      by blast
    with n show ?thesis
      by (intro exI[of _ "d # p"] exI[of _ es']) simp
  qed
qed

lemma walk_sound:
  assumes "(r, ds, fls) \<in> set (walk fs start td)"
  shows "\<exists>p es. r = start @ p \<and> lookup fs r = Some (Dir es) \<and> ds = subdirs es \<and> fls = nondirs es"
proof -
  from assms obtain n where n: "lookup fs start = Some n"
    and w: "(r, ds, fls) \<in> set (walk_node td start n)"
    by (cases "lookup fs start") (auto simp: walk_def)
  from walk_node_sound[OF w] obtain p es where
    "r = start @ p" "lookup n p = Some (Dir es)" "ds = subdirs es" "fls = nondirs es" by blast
  with n show ?thesis by (auto simp: lookup_append)
qed

lemma walk_file:
  assumes "(r, ds, fls) \<in> set (walk fs start td)" and "f \<in> set fls"
  shows "\<exists>c. lookup fs (r @ [f]) = Some (File c)"
proof -
  from walk_sound[OF assms(1)] obtain es where
    es: "lookup fs r = Some (Dir es)" "fls = nondirs es" by blast
  with assms(2) obtain c where "map_of es f = Some (File c)" by (auto dest: in_nondirs)
  with es show ?thesis by (simp add: lookup_append)
qed

lemma walk_root_prefix:
  "(r, ds, fls) \<in> set (walk fs start td) \<Longrightarrow> prefix start r"
  by (auto dest: walk_sound)

text \<open>The files a walk lists, as (directory, name) pairs in the order of the loops.\<close>

definition walk_files :: "(path \<times> string list \<times> string list) list \<Rightarrow> (path \<times> string) list" where
  "walk_files triples = concat (map (\<lambda>(r, ds, fls). map (Pair r) fls) triples)"

lemma walk_files_append: "walk_files (a @ b) = walk_files a @ walk_files b"
  by (simp add: walk_files_def)

lemma walk_files_concat: "walk_files (concat xs) = concat (map walk_files xs)"
  by (induction xs) (simp_all add: walk_files_append, simp add: walk_files_def)

lemma in_walk_files:
  "(r, f) \<in> set (walk_files triples) \<longleftrightarrow> (\<exists>ds fls. (r, ds, fls) \<in> set triples \<and> f \<in> set fls)"
  by (induction triples) (auto simp: walk_files_def)

lemma distinct_concat_map:
  assumes "distinct ds" and "\<And>d. d \<in> set ds \<Longrightarrow> distinct (g d)"
    and "\<And>d d'. d \<in> set ds \<Longrightarrow> d' \<in> set ds \<Longrightarrow> d \<noteq> d' \<Longrightarrow> set (g d) \<inter> set (g d') = {}"
  shows "distinct (concat (map g ds))"
  using assms
proof (induction ds)
  case Nil
  then show ?case by simp
next
  case (Cons d ds)
  have "distinct (concat (map g ds))"
    by (rule Cons.IH) (use Cons.prems in auto)
  moreover have "distinct (g d)" using Cons.prems(2) by simp
  moreover have "set (g d) \<inter> set (concat (map g ds)) = {}"
  proof -
    have "set (g d) \<inter> set (g d') = {}" if "d' \<in> set ds" for d'
    proof (rule Cons.prems(3))
      show "d \<in> set (d # ds)" by simp
      show "d' \<in> set (d # ds)" using that by simp
      show "d \<noteq> d'" using Cons.prems(1) that by auto
    qed
    then show ?thesis by auto
  qed
  ultimately show ?case by simp
qed

lemma walk_node_files_distinct:
  "distinct (map (\<lambda>(r, f). r @ [f]) (walk_files (walk_node td start n)))"
proof (induction td start n rule: walk_node.induct)
  case (1 td start c)
  then show ?case by (simp add: walk_files_def)
next
  case (2 td start es)
  define src :: "path \<times> string \<Rightarrow> path" where "src = (\<lambda>(r, f). r @ [f])"
  define sub where "sub = (\<lambda>d. case map_of es d of None \<Rightarrow> []
                                      | Some n \<Rightarrow> walk_node td (start @ [d]) n)"
  define g where "g = (\<lambda>d. map src (walk_files (sub d)))"
  define here where "here = map src (walk_files [(start, subdirs es, nondirs es)])"
  define below where "below = concat (map g (subdirs es))"
  have here_eq: "here = map (\<lambda>f. start @ [f]) (nondirs es)"
    by (simp add: here_def walk_files_def comp_def src_def)
  have dh: "distinct here" unfolding here_eq
    by (simp add: distinct_map distinct_nondirs inj_on_def)
  have below_prefix: "\<exists>q. p = start @ d # q \<and> q \<noteq> []" if "d \<in> set (subdirs es)" "p \<in> set (g d)" for d p
  proof -
    from that(1) obtain n where n: "map_of es d = Some n" by (auto dest: in_subdirs)
    with that(2) obtain r f where rf: "(r, f) \<in> set (walk_files (walk_node td (start @ [d]) n))"
      and p: "p = r @ [f]" by (auto simp: g_def sub_def src_def)
    from rf obtain ds fls where "(r, ds, fls) \<in> set (walk_node td (start @ [d]) n)"
      by (auto simp: in_walk_files)
    from walk_node_sound[OF this] obtain q where "r = (start @ [d]) @ q" by blast
    with p show ?thesis by (intro exI[of _ "q @ [f]"]) simp
  qed
  have db: "distinct below" unfolding below_def
  proof (rule distinct_concat_map)
    show "distinct (subdirs es)" by (rule distinct_subdirs)
  next
    fix d assume d: "d \<in> set (subdirs es)"
    then obtain n where n: "map_of es d = Some n" by (auto dest: in_subdirs)
    from "2.IH"[OF refl d n] n show "distinct (g d)" by (simp add: g_def sub_def src_def)
  next
    fix d d' assume d: "d \<in> set (subdirs es)" "d' \<in> set (subdirs es)" "d \<noteq> d'"
    show "set (g d) \<inter> set (g d') = {}"
    proof (rule ccontr)
      assume "set (g d) \<inter> set (g d') \<noteq> {}"
      then obtain p where "p \<in> set (g d)" "p \<in> set (g d')" by blast
      with below_prefix[OF d(1)] below_prefix[OF d(2)] obtain q q' where
        "p = start @ d # q" "p = start @ d' # q'" by blast
      with d(3) show False by simp
    qed
  qed
  have disj: "set here \<inter> set below = {}"
  proof (rule ccontr)
    assume "set here \<inter> set below \<noteq> {}"
    then obtain p where ph: "p \<in> set here" and pb: "p \<in> set below" by blast
    from ph obtain f where "p = start @ [f]" unfolding here_eq by auto
    moreover from pb obtain d where "d \<in> set (subdirs es)" "p \<in> set (g d)"
      unfolding below_def by auto
    with below_prefix obtain q where "p = start @ d # q" "q \<noteq> []" by blast
    ultimately show False by simp
  qed
  have below_eq: "map src (walk_files (concat (map sub (subdirs es)))) = below"
    by (simp add: below_def g_def walk_files_concat map_concat comp_def)
  have wn: "walk_node td start (Dir es) =
          (if td then [(start, subdirs es, nondirs es)] @ concat (map sub (subdirs es))
           else concat (map sub (subdirs es)) @ [(start, subdirs es, nondirs es)])"
    by (simp add: Let_def sub_def)
  have "map src (walk_files (walk_node td start (Dir es))) =
          (if td then here @ below else below @ here)"
    unfolding wn by (simp only: walk_files_append map_append below_eq here_def if_distrib[of "\<lambda>x. map src (walk_files x)"])
  with dh db disj show ?case by (auto simp: src_def)
qed

lemma walk_files_distinct:
  "distinct (map (\<lambda>(r, f). r @ [f]) (walk_files (walk fs start td)))"
proof (cases "lookup fs start")
  case None
  then show ?thesis by (simp add: walk_def walk_files_def)
next
  case (Some n)
  then show ?thesis using walk_node_files_distinct[of td start n] by (simp add: walk_def)
qed

section \<open>Frames\<close>

text \<open>
  \<open>same_outside h fs fs'\<close>: every path that does not start with the top-level entry \<open>h\<close>
  leads to the same node in \<open>fs'\<close> as in \<open>fs\<close>. An operation on a path below \<open>h\<close> has
  this frame.
\<close>

definition same_outside :: "string \<Rightarrow> node \<Rightarrow> node \<Rightarrow> bool" where
  "same_outside h fs fs' \<longleftrightarrow> (\<forall>y ys. y \<noteq> h \<longrightarrow> lookup fs' (y # ys) = lookup fs (y # ys))"

lemma same_outside_refl [simp]: "same_outside h fs fs"
  by (simp add: same_outside_def)

lemma same_outside_trans:
  "same_outside h a b \<Longrightarrow> same_outside h b c \<Longrightarrow> same_outside h a c"
  by (simp add: same_outside_def)

lemma put_same_outside:
  assumes "put p v fs = Inr fs'" and "p \<noteq> []" and "hd p = h"
  shows "same_outside h fs fs'"
proof -
  from assms(2,3) obtain xs where p: "p = h # xs" by (cases p) auto
  show ?thesis
  proof (cases fs)
    case (File c)
    with assms(1) p show ?thesis by simp
  next
    case (Dir es)
    show ?thesis
    proof (cases xs)
      case Nil
      with assms(1) p Dir show ?thesis by (auto simp: same_outside_def update_conv')
    next
      case (Cons y ys)
      with assms(1) p Dir show ?thesis
        by (auto simp: same_outside_def update_conv' split: option.splits sum.splits)
    qed
  qed
qed

lemma remove_same_outside:
  assumes "p \<noteq> []" and "hd p = h"
  shows "same_outside h fs (remove p fs)"
proof -
  from assms obtain xs where p: "p = h # xs" by (cases p) auto
  show ?thesis
  proof (cases fs)
    case (File c)
    with p show ?thesis by simp
  next
    case (Dir es)
    show ?thesis
    proof (cases xs)
      case Nil
      with p Dir show ?thesis by (auto simp: same_outside_def delete_conv')
    next
      case (Cons y ys)
      with p Dir show ?thesis
        by (auto simp: same_outside_def update_conv' split: option.splits)
    qed
  qed
qed

lemma makedirs_same_outside:
  assumes "makedirs fs p = Inr fs'" and "p \<noteq> []" and "hd p = h"
  shows "same_outside h fs fs'"
proof -
  from assms(2,3) obtain xs where p: "p = h # xs" by (cases p) auto
  show ?thesis
  proof (cases fs)
    case (File c)
    with assms(1) p show ?thesis by (simp add: makedirs_def)
  next
    case (Dir es)
    with assms(1) p show ?thesis
      by (auto simp: makedirs_def same_outside_def update_conv' split: sum.splits)
  qed
qed

lemma write_file_same_outside:
  "write_file fs p c = Inr fs' \<Longrightarrow> p \<noteq> [] \<Longrightarrow> hd p = h \<Longrightarrow> same_outside h fs fs'"
  by (auto simp: write_file_def split: if_splits intro: put_same_outside)

lemma rmdir_quiet_same_outside:
  "p \<noteq> [] \<Longrightarrow> hd p = h \<Longrightarrow> same_outside h fs (rmdir_quiet fs p)"
  by (auto simp: rmdir_quiet_def split: option.splits node.splits list.splits
      intro: remove_same_outside)

lemma move_same_outside:
  assumes "move fs src dst = Inr fs'" and "src \<noteq> []" "hd src = h" "dst \<noteq> []" "hd dst = h"
  shows "same_outside h fs fs'"
proof -
  from assms(1) obtain n where n: "lookup fs src = Some n"
    by (cases "lookup fs src") (auto simp: move_def)
  define real where "real = (if isdir fs dst then dst @ [basename src] else dst)"
  have rh: "real \<noteq> []" "hd real = h" using assms(4,5) by (auto simp: real_def)
  from assms(1) n obtain fs1 where p: "put real n fs = Inr fs1" and f: "fs' = remove src fs1"
    by (cases "put real n fs") (auto simp: move_def real_def split: if_splits)
  from put_same_outside[OF p rh] remove_same_outside[OF assms(2,3), of fs1] f
  show ?thesis by (auto intro: same_outside_trans)
qed

lemma foldE_same_outside:
  assumes "foldE f xs s = Inr s'"
    and "\<And>x a b. x \<in> set xs \<Longrightarrow> f x a = Inr b \<Longrightarrow> same_outside h (t a) (t b)"
  shows "same_outside h (t s) (t s')"
  using assms
proof (induction xs arbitrary: s)
  case Nil
  then show ?case by simp
next
  case (Cons x xs)
  from Cons.prems(1) obtain s1 where f: "f x s = Inr s1" and r: "foldE f xs s1 = Inr s'"
    by (auto split: sum.splits)
  have "same_outside h (t s) (t s1)" using Cons.prems(2)[OF _ f] by simp
  moreover have "same_outside h (t s1) (t s')"
    by (rule Cons.IH[OF r]) (use Cons.prems(2) in auto)
  ultimately show ?case by (rule same_outside_trans)
qed

lemma fold_same_outside:
  assumes "\<And>x a. x \<in> set xs \<Longrightarrow> same_outside h (t a) (t (f x a))"
  shows "same_outside h (t s) (t (fold f xs s))"
  using assms
proof (induction xs arbitrary: s)
  case Nil
  then show ?case by simp
next
  case (Cons x xs)
  have "same_outside h (t s) (t (f x s))" using Cons.prems by simp
  moreover have "same_outside h (t (f x s)) (t (fold f xs (f x s)))"
    by (rule Cons.IH) (use Cons.prems in auto)
  ultimately show ?case by (auto intro: same_outside_trans)
qed

lemma hd_append_ne: "xs \<noteq> [] \<Longrightarrow> hd (xs @ ys) = hd xs"
  by simp

lemma prefix_hd: "prefix e r \<Longrightarrow> e \<noteq> [] \<Longrightarrow> r \<noteq> [] \<and> hd r = hd e"
  by (auto simp: prefix_def)

lemma safe_copy_same_outside:
  assumes "safe_copy fs src dst = Inr (fs', cand)" and "dirname dst \<noteq> []" and "hd dst = h"
  shows "same_outside h fs fs'"
proof -
  define d where "d = dirname dst"
  have dst: "dst \<noteq> []" using assms(2) by (auto simp: dirname_def)
  have hd_d: "hd d = h" using assms(2,3) unfolding d_def dirname_def
    by (cases dst rule: rev_cases) (auto simp: hd_append)
  define c where "c = safe_copy_loop fs d (fst (splitext (basename dst))) (snd (splitext (basename dst))) dst 1"
  have ch: "c \<noteq> [] \<and> hd c = h"
  proof (cases "path_exists fs dst")
    case False
    then show ?thesis using dst assms(3) by (simp add: c_def safe_copy_loop_spec)
  next
    case True
    from first_free_spec[of 1 fs d "fst (splitext (basename dst))" "snd (splitext (basename dst))"]
    obtain k where "first_free fs d (fst (splitext (basename dst))) (snd (splitext (basename dst))) 1
        = suffixed d (fst (splitext (basename dst))) (snd (splitext (basename dst))) k" by blast
    with True show ?thesis using assms(2) hd_d
      by (simp add: c_def safe_copy_loop_spec suffixed_def d_def)
  qed
  from assms(1) have cp: "copy2 fs src c = Inr fs'"
    by (cases "copy2 fs src c") (auto simp: safe_copy_def split_beta Let_def c_def d_def)
  then obtain content where w: "write_file fs (if isdir fs c then c @ [basename src] else c) content = Inr fs'"
    by (auto simp: copy2_def split: option.splits node.splits)
  show ?thesis
    by (rule write_file_same_outside[OF w]) (use ch in auto)
qed

subsection \<open>Path names\<close>

lemma split_sep_ne [simp]: "split_sep s \<noteq> []"
  by (induction s) (auto split: list.splits)

lemma split_sep_plain: "CHR ''/'' \<notin> set b \<Longrightarrow> split_sep b = [b]"
  by (induction b) auto

lemma split_sep_append:
  "CHR ''/'' \<notin> set b \<Longrightarrow>
   split_sep (a @ b) = butlast (split_sep a) @ [last (split_sep a) @ b]"
proof (induction a)
  case Nil
  then show ?case by (simp add: split_sep_plain)
next
  case (Cons c a)
  obtain w ws where sa: "split_sep a = w # ws" by (cases "split_sep a") auto
  show ?case
  proof (cases "ws = []")
    case True
    with Cons sa show ?thesis by auto
  next
    case False
    with Cons sa show ?thesis by auto
  qed
qed

lemma last_filter_last: "xs \<noteq> [] \<Longrightarrow> P (last xs) \<Longrightarrow> last (filter P xs) = last xs"
  by (cases xs rule: rev_cases) auto

lemma filter_ne_last: "xs \<noteq> [] \<Longrightarrow> P (last xs) \<Longrightarrow> filter P xs \<noteq> []"
  by (cases xs rule: rev_cases) auto

lemma components_last:
  assumes "CHR ''/'' \<notin> set b" "b \<noteq> []"
  shows "components (a @ b) \<noteq> [] \<and> last (components (a @ b)) = last (split_sep a) @ b"
proof -
  from split_sep_append[OF assms(1), of a] assms(2)
  have l: "last (split_sep (a @ b)) = last (split_sep a) @ b" and ne: "last (split_sep (a @ b)) \<noteq> []"
    by auto
  from filter_ne_last[of "split_sep (a @ b)" "\<lambda>c. c \<noteq> []"]
    last_filter_last[of "split_sep (a @ b)" "\<lambda>c. c \<noteq> []"] ne l
  show ?thesis by (simp add: components_def)
qed

text \<open>
  The folder name of a record ends in \<open>_surname_first\<close>, both parts sanitized: the last
  component of the target folder's name holds an underscore, it is not \<open>.\<close> or \<open>..\<close>.
\<close>

lemma sanitize_no_sep: "CHR ''/'' \<notin> set (sanitize_folder_part s)"
  by (auto simp: sanitize_folder_part_def Let_def is_folder_char_def)

lemma folder_name_parts:
  obtains a b where "folder_name_of r = a @ b" "CHR ''/'' \<notin> set b" "CHR ''_'' \<in> set b"
proof -
  let ?b = "''_'' @ sanitize_folder_part (or_empty (map_of r ''surname''))
             @ ''_'' @ sanitize_folder_part (or_empty (map_of r ''first_name''))"
  have "CHR ''/'' \<notin> set ?b" "CHR ''_'' \<in> set ?b" by (simp_all add: sanitize_no_sep)
  moreover have "\<exists>a. folder_name_of r = a @ ?b" by (simp add: folder_name_of_def Let_def)
  ultimately show ?thesis using that by blast
qed

lemma target_folder_last:
  "join_name d (folder_name_of r) \<noteq> [] \<and> CHR ''_'' \<in> set (last (join_name d (folder_name_of r)))"
proof -
  obtain a b where f: "folder_name_of r = a @ b" and b: "CHR ''/'' \<notin> set b" "CHR ''_'' \<in> set b"
    by (rule folder_name_parts)
  from b have "b \<noteq> []" by auto
  from components_last[OF b(1) this, of a] b(2) f
  have "components (folder_name_of r) \<noteq> []"
    "CHR ''_'' \<in> set (last (components (folder_name_of r)))" by simp_all
  then show ?thesis by (simp add: join_name_def)
qed

lemma target_folder_not_dot: "last (join_name d (folder_name_of r)) \<noteq> ''.''"
  using target_folder_last[of d r] by auto

definition single_component :: "string \<Rightarrow> bool" where
  "single_component s \<longleftrightarrow> CHR ''/'' \<notin> set s"

definition plain :: "path \<Rightarrow> bool" where
  "plain p \<longleftrightarrow> ''.'' \<notin> set p \<and> ''..'' \<notin> set p"

lemma join_name_single:
  assumes "single_component (folder_name_of r)"
  shows "join_name d (folder_name_of r) = d @ [folder_name_of r]"
    and "plain [folder_name_of r]"
proof -
  obtain a b where f: "folder_name_of r = a @ b" and b: "CHR ''_'' \<in> set b"
    by (rule folder_name_parts)
  from f b have u: "CHR ''_'' \<in> set (folder_name_of r)" by simp
  then have ne: "folder_name_of r \<noteq> []" by auto
  from assms have ns: "CHR ''/'' \<notin> set (folder_name_of r)" by (simp add: single_component_def)
  with ne have "\<not> startswith (folder_name_of r) ''/''"
    by (cases "folder_name_of r") (auto simp: startswith_def)
  moreover from ns ne have "components (folder_name_of r) = [folder_name_of r]"
    by (simp add: components_def split_sep_plain)
  ultimately show "join_name d (folder_name_of r) = d @ [folder_name_of r]"
    by (simp add: join_name_def)
  have "c \<noteq> folder_name_of r" if "CHR ''_'' \<notin> set c" for c
    using that u by auto
  from this[of "''.''"] this[of "''..''"] show "plain [folder_name_of r]"
    by (simp add: plain_def)
qed

text \<open>Reading a name: it leads to \<open>abspath\<close> of it, and goes on doing so in a larger tree.\<close>

lemma resolve_abs: "resolve fs cur cs = Inr p \<Longrightarrow> p = foldl follow cur cs"
  by (induction cs arbitrary: cur) (auto split: option.splits node.splits)

lemma resolve_append:
  "resolve fs cur (a @ b) = (case resolve fs cur a of Inl e \<Rightarrow> Inl e | Inr c \<Rightarrow> resolve fs c b)"
  by (induction a arbitrary: cur) (auto split: option.splits node.splits)

lemma isdir_at_abspath: "isdir_at fs name \<Longrightarrow> isdir fs (abspath name)"
  by (auto simp: isdir_at_def abspath_def split: sum.splits dest: resolve_abs)

lemma walk_at_subset: "x \<in> set (walk_at fs name td) \<Longrightarrow> x \<in> set (walk fs (abspath name) td)"
  by (simp add: walk_at_def split: if_splits)

text \<open>
  \<open>extends fs fs'\<close>: \<open>fs'\<close> is \<open>fs\<close> with some directories created, every other path as it
  was.
\<close>

definition extends :: "node \<Rightarrow> node \<Rightarrow> bool" where
  "extends fs fs' \<longleftrightarrow>
     (\<forall>q. stat fs' q = stat fs q \<or> (stat fs q = None \<and> stat fs' q = Some KDir))"

lemma extends_refl [simp]: "extends fs fs"
  by (simp add: extends_def)

lemma extends_trans: "extends a b \<Longrightarrow> extends b c \<Longrightarrow> extends a c"
  unfolding extends_def
proof
  fix q
  assume ab: "\<forall>q. stat b q = stat a q \<or> stat a q = None \<and> stat b q = Some KDir"
    and bc: "\<forall>q. stat c q = stat b q \<or> stat b q = None \<and> stat c q = Some KDir"
  from ab have 1: "stat b q = stat a q \<or> stat a q = None \<and> stat b q = Some KDir" by simp
  from bc have 2: "stat c q = stat b q \<or> stat b q = None \<and> stat c q = Some KDir" by simp
  from 1 2 show "stat c q = stat a q \<or> stat a q = None \<and> stat c q = Some KDir" by auto
qed

lemma extends_isfile: "extends fs fs' \<Longrightarrow> isfile fs p \<Longrightarrow> isfile fs' p"
proof -
  assume "extends fs fs'" and f: "isfile fs p"
  then have "stat fs' p = stat fs p \<or> (stat fs p = None \<and> stat fs' p = Some KDir)"
    by (simp add: extends_def)
  with f show ?thesis by (auto simp: isfile_stat)
qed

lemma resolve_mono:
  "extends fs fs' \<Longrightarrow> resolve fs cur cs = Inr p \<Longrightarrow> resolve fs' cur cs = Inr p"
proof (induction cs arbitrary: cur)
  case Nil
  then show ?case by simp
next
  case (Cons c cs)
  from Cons.prems(2) obtain es where l: "lookup fs cur = Some (Dir es)"
    and r: "resolve fs (follow cur c) cs = Inr p"
    by (auto split: option.splits node.splits)
  from l have "stat fs cur = Some KDir" by (simp add: stat_def)
  moreover from Cons.prems(1)
  have "stat fs' cur = stat fs cur \<or> (stat fs cur = None \<and> stat fs' cur = Some KDir)"
    by (simp add: extends_def)
  ultimately have "stat fs' cur = Some KDir" by auto
  then obtain es' where "lookup fs' cur = Some (Dir es')"
    by (cases "lookup fs' cur") (auto simp: stat_def elim: kind_of.elims)
  with Cons.IH[OF Cons.prems(1) r] show ?case by simp
qed

lemma put_new_extends:
  assumes "put p (Dir []) fs = Inr fs'" and "\<not> path_exists fs p"
  shows "extends fs fs'"
  unfolding extends_def
proof
  fix q
  from assms(2) have np: "stat fs p = None" by (simp add: path_exists_stat)
  note s = put_stat[OF assms(1), of q]
  show "stat fs' q = stat fs q \<or> stat fs q = None \<and> stat fs' q = Some KDir"
  proof (cases "prefix p q")
    case True
    then obtain r where q: "q = p @ r" by (auto simp: prefix_def)
    show ?thesis
    proof (cases r)
      case Nil
      with s q np show ?thesis by (simp add: stat_Nil)
    next
      case (Cons x xs)
      from np have "stat fs p \<noteq> Some KDir" by simp
      from stat_below_nondir[OF this, of r] Cons have "stat fs q = None" by (simp add: q)
      with s q Cons show ?thesis by (simp add: stat_Dir_Cons)
    qed
  next
    case False
    note np' = this
    show ?thesis
    proof (cases "prefix q p")
      case False
      with s np' show ?thesis by simp
    next
      case True
      with np' obtain r where p: "p = q @ r" and r: "r \<noteq> []" by (auto simp: prefix_def)
      from assms(1) have "p \<noteq> [] \<and> isdir fs (butlast p)" using put_ok_iff by blast
      then have bd: "stat fs (butlast p) = Some KDir" by (simp add: isdir_stat)
      from p r have bp: "butlast p = q @ butlast r" by (simp add: butlast_append)
      have "stat fs q = Some KDir"
      proof (cases "butlast r = []")
        case True
        with bd bp show ?thesis by simp
      next
        case False
        from bd bp have "stat fs (q @ butlast r) \<noteq> None" by simp
        from stat_prefix_dir[OF this False] show ?thesis by simp
      qed
      with s np' True show ?thesis by simp
    qed
  qed
qed

text \<open>\<open>os.makedirs\<close>: what exists stays, and a call that returns leaves a directory.\<close>

lemma mkdir_ok:
  assumes "mkdir fs name = Inr fs'"
  shows "extends fs fs'" and "isdir_at fs' name"
proof -
  from assms obtain p where r: "resolve fs [] name = Inr p" and n: "\<not> path_exists fs p"
    and u: "put p (Dir []) fs = Inr fs'"
    by (auto simp: mkdir_def split: sum.splits if_splits)
  from put_new_extends[OF u n] show e: "extends fs fs'" .
  from put_stat[OF u, of p] have "isdir fs' p" by (simp add: isdir_stat stat_Nil)
  with resolve_mono[OF e r] show "isdir_at fs' name" by (simp add: isdir_at_def)
qed

lemma mkdir_exist_ok_extends: "extends fs (fst (mkdir_exist_ok fs name))"
  by (cases "mkdir fs name") (auto simp: mkdir_exist_ok_def dest: mkdir_ok(1))

lemma mkdir_exist_ok_isdir_at: "mkdir_exist_ok fs name = (fs', None) \<Longrightarrow> isdir_at fs' name"
  by (cases "mkdir fs name") (auto simp: mkdir_exist_ok_def dest: mkdir_ok(2) split: if_splits)

lemma makedirs_st_extends: "extends fs (fst (makedirs_st fs name))"
proof (induction fs name rule: makedirs_st.induct)
  case (1 fs name)
  show ?case
  proof (cases "butlast name \<noteq> [] \<and> \<not> exists_at fs (butlast name)")
    case False
    then show ?thesis
      using mkdir_exist_ok_extends[of fs name] by (subst makedirs_st.simps) auto
  next
    case True
    obtain fs1 raised where m: "makedirs_st fs (butlast name) = (fs1, raised)"
      by (cases "makedirs_st fs (butlast name)")
    from "1.IH"[OF True] m have e1: "extends fs fs1" by simp
    from extends_trans[OF e1 mkdir_exist_ok_extends[of fs1 name]] e1 True m
    show ?thesis by (subst makedirs_st.simps) auto
  qed
qed

lemma os_makedirs_extends: "os_makedirs fs name = Inr fs' \<Longrightarrow> extends fs fs'"
  using makedirs_st_extends[of fs name]
  by (auto simp: os_makedirs_def split: prod.splits option.splits)

lemma os_makedirs_isdir_at:
  assumes "os_makedirs fs name = Inr fs'" and "last name \<noteq> ''.''"
  shows "isdir_at fs' name"
proof -
  from assms(1) have m: "makedirs_st fs name = (fs', None)"
    by (auto simp: os_makedirs_def split: prod.splits option.splits)
  show ?thesis
  proof (cases "butlast name \<noteq> [] \<and> \<not> exists_at fs (butlast name)")
    case False
    with m have "mkdir_exist_ok fs name = (fs', None)" by (subst (asm) makedirs_st.simps) auto
    then show ?thesis by (rule mkdir_exist_ok_isdir_at)
  next
    case True
    obtain fs1 raised where m1: "makedirs_st fs (butlast name) = (fs1, raised)"
      by (cases "makedirs_st fs (butlast name)")
    from m True m1 assms(2) have "mkdir_exist_ok fs1 name = (fs', None)"
      by (subst (asm) makedirs_st.simps) (auto split: if_splits)
    then show ?thesis by (rule mkdir_exist_ok_isdir_at)
  qed
qed

lemma os_makedirs_existing:
  assumes "isdir_at fs name"
  shows "os_makedirs fs name = Inr fs"
proof -
  from assms obtain p where r: "resolve fs [] name = Inr p" and i: "isdir fs p"
    by (auto simp: isdir_at_def split: sum.splits)
  from i have e: "path_exists fs p" by (simp add: isdir_stat path_exists_stat)
  from r e assms have k: "mkdir_exist_ok fs name = (fs, None)"
    by (simp add: mkdir_exist_ok_def mkdir_def)
  have "butlast name = [] \<or> exists_at fs (butlast name)"
  proof (cases "name = []")
    case True
    then show ?thesis by simp
  next
    case False
    then have n: "name = butlast name @ [last name]" by simp
    from r have "resolve fs [] (butlast name @ [last name]) = Inr p" using n by simp
    then obtain c where rc: "resolve fs [] (butlast name) = Inr c"
      and "resolve fs c [last name] = Inr p"
      by (auto simp: resolve_append split: sum.splits)
    then have "path_exists fs c" by (auto simp: path_exists_def split: option.splits)
    with rc show ?thesis by (simp add: exists_at_def)
  qed
  with k show ?thesis by (subst os_makedirs_def, subst makedirs_st.simps) auto
qed

text \<open>A name without \<open>.\<close> and \<open>..\<close> is the path it leads to.\<close>

lemma foldl_follow_plain: "plain p \<Longrightarrow> foldl follow cur p = cur @ p"
  by (induction p arbitrary: cur) (auto simp: plain_def follow_def)

lemma abspath_plain: "plain p \<Longrightarrow> abspath p = p"
  by (simp add: abspath_def foldl_follow_plain)

lemma plain_butlast: "plain p \<Longrightarrow> plain (butlast p)"
  by (auto simp: plain_def dest: in_set_butlastD)

lemma mkdir_same_outside:
  assumes "mkdir fs name = Inr fs'" and "plain name" and "name \<noteq> []" and "hd name = h"
  shows "same_outside h fs fs'"
proof -
  from assms(1) obtain p where r: "resolve fs [] name = Inr p" and u: "put p (Dir []) fs = Inr fs'"
    by (auto simp: mkdir_def split: sum.splits if_splits)
  from resolve_abs[OF r] assms(2) have "p = name" by (simp add: foldl_follow_plain)
  with u assms(3,4) show ?thesis by (auto intro: put_same_outside)
qed

lemma mkdir_exist_ok_same_outside:
  assumes "plain name" and "name \<noteq> []" and "hd name = h"
  shows "same_outside h fs (fst (mkdir_exist_ok fs name))"
  using assms by (cases "mkdir fs name") (auto simp: mkdir_exist_ok_def intro: mkdir_same_outside)

lemma makedirs_st_same_outside:
  "plain name \<Longrightarrow> name \<noteq> [] \<Longrightarrow> hd name = h \<Longrightarrow> same_outside h fs (fst (makedirs_st fs name))"
proof (induction fs name rule: makedirs_st.induct)
  case (1 fs name)
  show ?case
  proof (cases "butlast name \<noteq> [] \<and> \<not> exists_at fs (butlast name)")
    case False
    then show ?thesis
      using mkdir_exist_ok_same_outside[OF "1.prems", of fs] by (subst makedirs_st.simps) auto
  next
    case True
    obtain fs1 raised where m: "makedirs_st fs (butlast name) = (fs1, raised)"
      by (cases "makedirs_st fs (butlast name)")
    from True "1.prems" have hb: "hd (butlast name) = h" by (cases name) auto
    from "1.IH"[OF True plain_butlast[OF "1.prems"(1)] _ hb] True m
    have e1: "same_outside h fs fs1" by simp
    from same_outside_trans[OF e1 mkdir_exist_ok_same_outside[OF "1.prems", of fs1]] e1 True m
    show ?thesis by (subst makedirs_st.simps) auto
  qed
qed

lemma os_makedirs_same_outside:
  "os_makedirs fs name = Inr fs' \<Longrightarrow> plain name \<Longrightarrow> name \<noteq> [] \<Longrightarrow> hd name = h
   \<Longrightarrow> same_outside h fs fs'"
  using makedirs_st_same_outside[of name h fs]
  by (auto simp: os_makedirs_def split: prod.splits option.splits)

subsection \<open>Extraction, flattening and conversion\<close>

lemma write_members_same_outside:
  "e \<noteq> [] \<Longrightarrow> hd e = h \<Longrightarrow> same_outside h fs (fst (write_members fs e ms))"
proof (induction ms arbitrary: fs)
  case Nil
  then show ?case by simp
next
  case (Cons m ms)
  obtain name c where m: "m = (name, c)" by (cases m)
  define rel where "rel = filter (\<lambda>x. x \<noteq> [] \<and> x \<noteq> ''.'' \<and> x \<noteq> ''..'') name"
  show ?case
  proof (cases "makedirs fs (e @ butlast rel)")
    case (Inl a)
    then show ?thesis by (simp add: m rel_def)
  next
    case (Inr fs1)
    have s1: "same_outside h fs fs1"
      by (rule makedirs_same_outside[OF Inr]) (use Cons.prems in auto)
    show ?thesis
    proof (cases "write_file fs1 (e @ rel) c")
      case (Inl a)
      with Inr s1 show ?thesis by (simp add: m rel_def)
    next
      case (Inr fs2)
      have s2: "same_outside h fs1 fs2"
        by (rule write_file_same_outside[OF Inr]) (use Cons.prems in auto)
      from Cons.IH[OF Cons.prems, of fs2] s1 s2 \<open>makedirs fs (e @ butlast rel) = Inr fs1\<close> Inr
      show ?thesis by (auto simp: m rel_def intro: same_outside_trans)
    qed
  qed
qed

lemma extractall_same_outside:
  "e \<noteq> [] \<Longrightarrow> hd e = h \<Longrightarrow> same_outside h fs (fst (extractall x fs e))"
  using write_members_same_outside[of e h fs]
  by (cases x) (auto simp: extractall_def split_beta)

lemma flatten_file_same_outside:
  assumes "flatten_file e r f fs = Inr fs'" and "e \<noteq> []" "hd e = h" "r \<noteq> []" "hd r = h"
  shows "same_outside h fs fs'"
proof (cases "r @ [f] = e @ [f]")
  case True
  with assms(1) show ?thesis by (simp add: flatten_file_def)
next
  case False
  define dst where "dst = (if path_exists fs (e @ [f])
                           then first_free fs e (fst (splitext f)) (snd (splitext f)) 1
                           else e @ [f])"
  have dh: "dst \<noteq> [] \<and> hd dst = h"
  proof (cases "path_exists fs (e @ [f])")
    case False
    then show ?thesis using assms(2,3) by (simp add: dst_def)
  next
    case True
    from first_free_spec[of 1 fs e "fst (splitext f)" "snd (splitext f)"]
    obtain k where "first_free fs e (fst (splitext f)) (snd (splitext f)) 1
        = suffixed e (fst (splitext f)) (snd (splitext f)) k" by blast
    with True show ?thesis using assms(2,3) by (simp add: dst_def suffixed_def)
  qed
  from assms(1) False have mv: "move fs (r @ [f]) dst = Inr fs'"
    by (simp add: flatten_file_def Let_def split_beta dst_def del: if_split cong: if_cong)
  show ?thesis
    by (rule move_same_outside[OF mv]) (use dh assms(4,5) in auto)
qed

lemma flatten_files_same_outside:
  assumes "flatten_files e fs = Inr fs'" and "plain e" "e \<noteq> []" "hd e = h"
  shows "same_outside h fs fs'"
proof -
  note ae = abspath_plain[OF assms(2)]
  note assms = assms(1)[unfolded flatten_files_def ae] assms(3,4)
  have inner: "same_outside h a b"
    if "foldE (flatten_file e r) fls a = Inr b" "r \<noteq> []" "hd r = h" for r fls a b
    using foldE_same_outside[where t = "\<lambda>x. x", OF that(1)] flatten_file_same_outside assms(2,3) that(2,3)
    by blast
  show ?thesis
  proof (rule foldE_same_outside[where t = "\<lambda>x. x", OF assms(1)])
    fix x a b
    assume x: "x \<in> set (walk_at fs e True)"
      and f: "(case x of (rootp, dirs, files) \<Rightarrow> foldE (flatten_file e rootp) files) a = Inr b"
    obtain r ds fls where xe: "x = (r, ds, fls)" by (cases x)
    from walk_at_subset[OF x] xe have "prefix e r" by (auto simp: ae dest: walk_root_prefix)
    with assms(2,3) have rh: "r \<noteq> []" "hd r = h" by (auto dest: prefix_hd)
    from f xe have "foldE (flatten_file e r) fls a = Inr b" by simp
    from inner[OF this rh] show "same_outside h a b" .
  qed
qed

lemma remove_empty_dirs_same_outside:
  assumes "plain e" "e \<noteq> []" "hd e = h"
  shows "same_outside h fs (remove_empty_dirs e fs)"
  unfolding remove_empty_dirs_def
proof (rule fold_same_outside[where t = "\<lambda>x. x"])
  fix x a
  assume x: "x \<in> set (walk_at fs e False)"
  obtain r ds fls where xe: "x = (r, ds, fls)" by (cases x)
  from walk_at_subset[OF x] xe have "prefix e r"
    by (auto simp: abspath_plain[OF assms(1)] dest: walk_root_prefix)
  with assms have rh: "r \<noteq> [] \<and> hd r = h" by (auto dest: prefix_hd)
  have "same_outside h a
          (fold (\<lambda>d fs2. if isdir_at fs2 e then rmdir_quiet fs2 (r @ [d]) else fs2) ds a)"
    by (rule fold_same_outside[where t = "\<lambda>x. x"])
       (use rh in \<open>auto intro!: rmdir_quiet_same_outside\<close>)
  with xe show "same_outside h a
          ((case x of (rootp, dirs, files) \<Rightarrow>
              \<lambda>fs1. fold (\<lambda>d fs2. if isdir_at fs2 e then rmdir_quiet fs2 (rootp @ [d]) else fs2)
                       dirs fs1) a)"
    by simp
qed

lemma flatten_same_outside:
  assumes "flatten e fs = Inr fs'" and "plain e" "e \<noteq> []" "hd e = h"
  shows "same_outside h fs fs'"
proof -
  from assms(1) obtain fs1 where f: "flatten_files e fs = Inr fs1" and r: "fs' = remove_empty_dirs e fs1"
    by (cases "flatten_files e fs") (auto simp: flatten_def)
  from flatten_files_same_outside[OF f assms(2,3,4)]
    remove_empty_dirs_same_outside[OF assms(2,3,4), of fs1] r
  show ?thesis by (auto intro: same_outside_trans)
qed

lemma extract_and_flatten_archive_same_outside:
  assumes "extract_and_flatten_archive ext fs archive_path e = Inr fs'"
    and pl: "plain e" and "e \<noteq> []" "hd e = h"
  shows "same_outside h fs fs'"
proof -
  note ae = abspath_plain[OF pl]
  note assms = assms(1)[unfolded extract_and_flatten_archive_def ae] assms(3,4)
  from assms(1) obtain fs0 where mk: "os_makedirs fs e = Inr fs0"
    by (cases "os_makedirs fs e") auto
  note s0 = os_makedirs_same_outside[OF mk pl assms(2,3)]
  note ex = extractall_same_outside[OF assms(2,3)]
  from assms(1) mk have
    "flatten e (fst (extractall (read_archive (zip_extractall ext) fs0 archive_path) fs0 e)) = Inr fs'
     \<or> fs' = fs0
     \<or> fs' = fst (extractall (read_archive (rar_extractall ext) fs0 archive_path) fs0 e)
     \<or> flatten e (fst (extractall (read_archive (rar_extractall ext) fs0 archive_path) fs0 e)) = Inr fs'
     \<or> flatten e fs0 = Inr fs'"
    by (auto split: if_splits prod.splits)
  then have "same_outside h fs0 fs'"
    using ex[of fs0] flatten_same_outside[OF _ pl assms(2,3)]
    by (auto intro: same_outside_trans)
  with s0 show ?thesis by (rule same_outside_trans)
qed

lemma libreoffice_same_outside:
  assumes "out_dir \<noteq> []" "hd out_dir = h"
  shows "same_outside h fs (fst (libreoffice_convert_docx_to_pdf ext fs docx out_dir))"
proof -
  have "same_outside h fs (case write_file fs (out_dir @ [n]) pdf of Inl e \<Rightarrow> fs | Inr fs1 \<Rightarrow> fs1)" for n pdf
    using assms by (cases "write_file fs (out_dir @ [n]) pdf") (auto intro: write_file_same_outside)
  then show ?thesis
    by (auto simp: libreoffice_convert_docx_to_pdf_def Let_def
        split: option.splits node.splits conv_result.splits)
qed

lemma convert_file_tree:
  "tree (convert_file ext r f st) = tree st
   \<or> tree (convert_file ext r f st) = fst (libreoffice_convert_docx_to_pdf ext (tree st) (r @ [f]) r)"
  by (auto simp: convert_file_def Let_def split: prod.splits)

lemma convert_file_same_outside:
  "r \<noteq> [] \<Longrightarrow> hd r = h \<Longrightarrow> same_outside h (tree st) (tree (convert_file ext r f st))"
  using convert_file_tree[of ext r f st] libreoffice_same_outside[of r h "tree st" ext "r @ [f]"]
  by auto

lemma convert_folder_same_outside:
  assumes "plain t" "t \<noteq> []" "hd t = h"
  shows "same_outside h (tree st) (tree (convert_folder ext t st))"
  unfolding convert_folder_def
proof (rule fold_same_outside[where t = tree])
  fix x a
  assume x: "x \<in> set (walk_at (tree st) t True)"
  obtain r ds fls where xe: "x = (r, ds, fls)" by (cases x)
  from walk_at_subset[OF x] xe have "prefix t r"
    by (auto simp: abspath_plain[OF assms(1)] dest: walk_root_prefix)
  with assms have rh: "r \<noteq> [] \<and> hd r = h" by (auto dest: prefix_hd)
  have "same_outside h (tree a) (tree (fold (convert_file ext r) fls a))"
    by (rule fold_same_outside[where t = tree]) (use rh in \<open>auto intro!: convert_file_same_outside\<close>)
  with xe show "same_outside h (tree a)
          (tree ((case x of (rootp, dirs, files) \<Rightarrow> \<lambda>st1. fold (convert_file ext rootp) files st1) a))"
    by simp
qed

subsection \<open>What a step leaves as it was\<close>

text \<open>
  \<open>kept_off T fs fs'\<close>: every path that is not strictly below \<open>T\<close> is in \<open>fs'\<close> what it was
  in \<open>fs\<close>, a regular file with the same content, a directory or nothing, except that
  a directory may have been created there. The steps on a target folder \<open>T\<close> have this
  frame whatever the name of the folder is.
\<close>

definition kept_off :: "path \<Rightarrow> node \<Rightarrow> node \<Rightarrow> bool" where
  "kept_off T fs fs' \<longleftrightarrow>
     (\<forall>p. \<not> strict_prefix T p \<longrightarrow>
          stat fs' p = stat fs p \<or> (stat fs p = None \<and> stat fs' p = Some KDir))"

lemma kept_off_refl [simp]: "kept_off T fs fs"
  by (simp add: kept_off_def)


























section \<open>Properties of a run\<close>

text \<open>
  \<open>visible\<close>: the name does not start with a dot. \<open>has_match\<close>: the matcher, called as
  the run calls it, returns a record.
\<close>

lemma hd_OUTPUT_DIR: "OUTPUT_DIR \<noteq> [] \<and> hd OUTPUT_DIR = ''organized_submissions''"
  by (simp add: OUTPUT_DIR_def)

lemma plain_OUTPUT_DIR: "plain OUTPUT_DIR"
  by (simp add: OUTPUT_DIR_def plain_def)

lemma place_file_same_outside:
  assumes pf: "place_file ext fname t st = Inr st'" and pl: "plain t" and "t \<noteq> []" "hd t = h"
  shows "same_outside h (tree st) (tree st')"
proof (cases "path_exists (tree st) (t @ [basename (INPUT_DIR @ [fname])])")
  case True
  with pf show ?thesis by (auto simp: place_file_def Let_def abspath_plain[OF pl])
next
  case False
  note ne = this
  note assms = pf[unfolded place_file_def abspath_plain[OF pl]] assms(3,4)
  show ?thesis
  proof (cases "is_archive_name fname")
    case True
    with ne assms(1) obtain fs' where
      e: "extract_and_flatten_archive ext (tree st) (INPUT_DIR @ [fname]) t = Inr fs'"
      and s: "st' = st\<lparr>tree := fs'\<rparr>"
      by (cases "extract_and_flatten_archive ext (tree st) (INPUT_DIR @ [fname]) t")
         (auto simp: Let_def)
    from extract_and_flatten_archive_same_outside[OF e pl assms(2,3)] s show ?thesis by simp
  next
    case False
    with ne assms(1) obtain fs' cand where
      e: "safe_copy (tree st) (INPUT_DIR @ [fname]) (t @ [basename (INPUT_DIR @ [fname])]) = Inr (fs', cand)"
      and s: "st' = st\<lparr>tree := fs'\<rparr>"
      by (cases "safe_copy (tree st) (INPUT_DIR @ [fname]) (t @ [basename (INPUT_DIR @ [fname])])")
         (auto simp: Let_def)
    have "same_outside h (tree st) fs'"
      by (rule safe_copy_same_outside[OF e]) (use assms(2,3) in \<open>auto simp: dirname_def\<close>)
    with s show ?thesis by simp
  qed
qed

lemma place_file_counters:
  assumes "place_file ext fname t st = Inr st'"
  shows "files_seen st' = files_seen st \<and> matched st' = matched st \<and> unmatched st' = unmatched st
       \<and> converted st' = converted st \<and> convert_failed st' = convert_failed st"
proof (cases "path_exists (tree st) (abspath t @ [basename (INPUT_DIR @ [fname])])")
  case True
  with assms(1) show ?thesis by (auto simp: place_file_def Let_def)
next
  case False
  note ne = this
  show ?thesis
  proof (cases "is_archive_name fname")
    case True
    with ne assms(1) show ?thesis
      by (cases "extract_and_flatten_archive ext (tree st) (INPUT_DIR @ [fname]) t")
         (auto simp: place_file_def Let_def)
  next
    case False
    with ne assms(1) show ?thesis
      by (cases "safe_copy (tree st) (INPUT_DIR @ [fname])
                   (abspath t @ [basename (INPUT_DIR @ [fname])])")
         (auto simp: place_file_def Let_def)
  qed
qed

lemma convert_file_counters:
  "files_seen (convert_file ext r f st) = files_seen st
   \<and> matched (convert_file ext r f st) = matched st
   \<and> unmatched (convert_file ext r f st) = unmatched st
   \<and> skipped_existing_file (convert_file ext r f st) = skipped_existing_file st"
  by (auto simp: convert_file_def Let_def split: prod.splits)

lemma fold_keeps:
  assumes "\<And>x a. g (f x a) = g a"
  shows "g (fold f xs s) = g s"
  by (induction xs arbitrary: s) (simp_all add: assms)

lemma convert_folder_counters:
  "files_seen (convert_folder ext t st) = files_seen st
   \<and> matched (convert_folder ext t st) = matched st
   \<and> unmatched (convert_folder ext t st) = unmatched st
   \<and> skipped_existing_file (convert_folder ext t st) = skipped_existing_file st"
proof -
  have k: "g (convert_folder ext t st) = g st" if "\<And>r f a. g (convert_file ext r f a) = g a" for g :: "run_state \<Rightarrow> nat"
    unfolding convert_folder_def
    by (rule fold_keeps) (auto simp: split_beta that intro!: fold_keeps)
  show ?thesis
    by (intro conjI k) (simp_all add: convert_file_counters)
qed

definition visible :: "string \<Rightarrow> bool" where
  "visible fname \<longleftrightarrow> \<not> startswith fname ''.''"

definition has_match :: "externals \<Rightarrow> row list \<Rightarrow> string \<Rightarrow> bool" where
  "has_match ext rows fname \<longleftrightarrow>
     fst (find_best_row_for_filename ext fname rows 2 (6 / 10)) \<noteq> None"

lemma selected_row_member:
  assumes "find_best_row_for_filename ext fname rows mtm thr = (Some r, how)"
  shows "r \<in> set rows"
proof -
  obtain bm bc where
    t: "fold (token_step (set (split_ws (normalize_text fname)))) rows (None, 0) = (bm, bc)"
    by (cases "fold (token_step (set (split_ws (normalize_text fname)))) rows (None, 0)")
  obtain br bw where f: "fold (fuzzy_step ext (normalize_text fname)) rows (0, None) = (br, bw)"
    by (cases "fold (fuzzy_step ext (normalize_text fname)) rows (0, None)")
  from assms t f have "bm = Some r \<or> bw = Some r"
    by (auto simp: find_best_row_for_filename_def Let_def split: if_splits)
  with token_fold_origin[OF t] fuzzy_fold_origin[OF f] show ?thesis by auto
qed

text \<open>
  The folder name is joined to \<open>OUTPUT_DIR\<close> by \<open>os.path.join\<close>. The sanitized surname and
  first name hold no separator, the roster's index may. \<open>plain_rows\<close>: no folder name
  of the roster holds one, so every target folder is a direct child of \<open>OUTPUT_DIR\<close>.
\<close>

definition plain_rows :: "row list \<Rightarrow> bool" where
  "plain_rows rows \<longleftrightarrow> (\<forall>r \<in> set rows. single_component (folder_name_of r))"

lemma process_entry_frame:
  assumes "process_entry ext rows fname st = Inr st'" and "plain_rows rows"
  shows "same_outside ''organized_submissions'' (tree st) (tree st')"
proof (cases "startswith fname ''.''")
  case True
  with assms show ?thesis by (simp add: process_entry_def)
next
  case False
  note nh = this
  let ?h = "''organized_submissions''"
  let ?st1 = "st\<lparr>files_seen := files_seen st + 1\<rparr>"
  show ?thesis
  proof (cases "isfile (tree st) (INPUT_DIR @ [fname])")
    case False
    with nh assms have "st' = ?st1" by (simp add: process_entry_def Let_def)
    then show ?thesis by simp
  next
    case True
    note isf = this
    obtain m how where fb: "find_best_row_for_filename ext fname rows 2 (6 / 10) = (m, how)"
      by (cases "find_best_row_for_filename ext fname rows 2 (6 / 10)")
    show ?thesis
    proof (cases m)
      case None
      with nh isf fb assms have "st' = ?st1\<lparr>unmatched := unmatched ?st1 + 1\<rparr>"
        by (simp add: process_entry_def Let_def)
      then show ?thesis by simp
    next
      case (Some r)
      from selected_row_member[of ext fname rows 2 "6 / 10" r how] fb Some assms(2)
      have sc: "single_component (folder_name_of r)" by (simp add: plain_rows_def)
      let ?t = "OUTPUT_DIR @ [folder_name_of r]"
      note jn = join_name_single[OF sc]
      have th: "plain ?t" "?t \<noteq> []" "hd ?t = ?h"
        using jn(2) by (simp_all add: OUTPUT_DIR_def plain_def)
      from nh isf fb Some assms(1) obtain fs1 st2 where
        mk: "os_makedirs (tree st) ?t = Inr fs1"
        and pl: "place_file ext fname ?t (?st1\<lparr>tree := fs1\<rparr>) = Inr st2"
        and st': "st' = (convert_folder ext ?t st2)\<lparr>matched := matched (convert_folder ext ?t st2) + 1\<rparr>"
        by (auto simp: process_entry_def Let_def jn(1) split: sum.splits)
      from os_makedirs_same_outside[OF mk th] have s1: "same_outside ?h (tree st) fs1" .
      from place_file_same_outside[OF pl th] have s2: "same_outside ?h fs1 (tree st2)" by simp
      from convert_folder_same_outside[OF th, of st2 ext]
      have s3: "same_outside ?h (tree st2) (tree (convert_folder ext ?t st2))" .
      from s1 s2 s3 show ?thesis
        unfolding st' by (auto intro: same_outside_trans)
    qed
  qed
qed

lemma process_entry_counters:
  assumes "process_entry ext rows fname st = Inr st'"
  shows "files_seen st' = files_seen st + (if visible fname then 1 else 0)"
    and "matched st' = matched st +
           (if visible fname \<and> isfile (tree st) (INPUT_DIR @ [fname]) \<and> has_match ext rows fname
            then 1 else 0)"
    and "unmatched st' = unmatched st +
           (if visible fname \<and> isfile (tree st) (INPUT_DIR @ [fname]) \<and> \<not> has_match ext rows fname
            then 1 else 0)"
proof -
  have "files_seen st' = files_seen st + (if visible fname then 1 else 0)
      \<and> matched st' = matched st +
           (if visible fname \<and> isfile (tree st) (INPUT_DIR @ [fname]) \<and> has_match ext rows fname
            then 1 else 0)
      \<and> unmatched st' = unmatched st +
           (if visible fname \<and> isfile (tree st) (INPUT_DIR @ [fname]) \<and> \<not> has_match ext rows fname
            then 1 else 0)"
  proof (cases "startswith fname ''.''")
    case True
    with assms show ?thesis by (simp add: process_entry_def visible_def)
  next
    case False
    note nh = this
    let ?st1 = "st\<lparr>files_seen := files_seen st + 1\<rparr>"
    show ?thesis
    proof (cases "isfile (tree st) (INPUT_DIR @ [fname])")
      case False
      with nh assms have "st' = ?st1" by (simp add: process_entry_def Let_def)
      with nh False show ?thesis by (simp add: visible_def)
    next
      case True
      note isf = this
      obtain m how where fb: "find_best_row_for_filename ext fname rows 2 (6 / 10) = (m, how)"
        by (cases "find_best_row_for_filename ext fname rows 2 (6 / 10)")
      show ?thesis
      proof (cases m)
        case None
        with nh isf fb assms have "st' = ?st1\<lparr>unmatched := unmatched ?st1 + 1\<rparr>"
          by (simp add: process_entry_def Let_def)
        with nh isf fb None show ?thesis by (simp add: visible_def has_match_def)
      next
        case (Some r)
        let ?t = "join_name OUTPUT_DIR (folder_name_of r)"
        from nh isf fb Some assms obtain fs1 st2 where
          pl: "place_file ext fname ?t (?st1\<lparr>tree := fs1\<rparr>) = Inr st2"
          and st': "st' = (convert_folder ext ?t st2)\<lparr>matched := matched (convert_folder ext ?t st2) + 1\<rparr>"
          by (auto simp: process_entry_def Let_def split: sum.splits)
        from place_file_counters[OF pl] convert_folder_counters[of ext ?t st2]
        have "files_seen st' = files_seen st + 1" "matched st' = matched st + 1"
          "unmatched st' = unmatched st"
          unfolding st' by simp_all
        then show ?thesis using nh isf fb Some by (simp add: visible_def has_match_def)
      qed
    qed
  qed
  then show "files_seen st' = files_seen st + (if visible fname then 1 else 0)"
    and "matched st' = matched st +
           (if visible fname \<and> isfile (tree st) (INPUT_DIR @ [fname]) \<and> has_match ext rows fname
            then 1 else 0)"
    and "unmatched st' = unmatched st +
           (if visible fname \<and> isfile (tree st) (INPUT_DIR @ [fname]) \<and> \<not> has_match ext rows fname
            then 1 else 0)"
    by simp_all
qed

lemma same_outside_input:
  "same_outside ''organized_submissions'' fs fs' \<Longrightarrow> lookup fs' (INPUT_DIR @ p) = lookup fs (INPUT_DIR @ p)"
  by (simp add: same_outside_def INPUT_DIR_def)


lemma run_frame:
  assumes "foldE (process_entry ext rows) ns st = Inr st'" and "plain_rows rows"
  shows "same_outside ''organized_submissions'' (tree st) (tree st')"
  by (rule foldE_same_outside[where t = tree, OF assms(1)]) (rule process_entry_frame[OF _ assms(2)])





text \<open>\<open>plain_roster\<close>: the rows read from the CSV file are \<open>plain_rows\<close>.\<close>

definition plain_roster :: "row list \<Rightarrow> bool" where
  "plain_roster parsed \<longleftrightarrow> plain_rows (load_csv_rows parsed)"

lemma organize_and_convert_loop:
  assumes "organize_and_convert ext parsed fs = Inr st"
  obtains fs0 ns where "os_makedirs fs OUTPUT_DIR = Inr fs0" "listdir fs0 INPUT_DIR = Inr ns"
    "foldE (process_entry ext (load_csv_rows parsed)) (sort ns) (initial_state fs0) = Inr st"
  using assms by (auto simp: organize_and_convert_def Let_def split: sum.splits)

lemma organize_and_convert_frame:
  assumes "organize_and_convert ext parsed fs = Inr st" and "plain_roster parsed"
  shows "same_outside ''organized_submissions'' fs (tree st)"
proof -
  from assms(1) obtain fs0 ns where mk: "os_makedirs fs OUTPUT_DIR = Inr fs0"
    and f: "foldE (process_entry ext (load_csv_rows parsed)) (sort ns) (initial_state fs0) = Inr st"
    by (rule organize_and_convert_loop)
  from os_makedirs_same_outside[OF mk plain_OUTPUT_DIR] hd_OUTPUT_DIR
  have "same_outside ''organized_submissions'' fs (tree (initial_state fs0))"
    by (simp add: initial_state_def)
  moreover from assms(2) have "plain_rows (load_csv_rows parsed)" by (simp add: plain_roster_def)
  from run_frame[OF f this]
  have "same_outside ''organized_submissions'' (tree (initial_state fs0)) (tree st)" .
  ultimately show ?thesis by (rule same_outside_trans)
qed

text \<open>
  The input directory, for a roster whose folder names hold no separator. After a run
  that completes, every path below the input directory leads to the node it led to
  before the run (for the empty \<open>p\<close>: the input directory itself, with the same entries
  and contents): files are copied, archives only read, unmatched and skipped files not
  touched.
\<close>

theorem input_directory_unchanged:
  assumes "organize_and_convert ext parsed fs = Inr st" and "plain_roster parsed"
  shows "lookup (tree st) (INPUT_DIR @ p) = lookup fs (INPUT_DIR @ p)"
  using organize_and_convert_frame[OF assms] by (rule same_outside_input)

text \<open>A run with an archive (extracted and flattened) and an unmatched file.\<close>

definition zip_inbox :: node where
  "zip_inbox =
     Dir [(''submissions'', Dir [(''smith_john.zip'', File ''doc''), (''zzz'', File ''q'')])]"

definition zip_first_run :: run_state where
  "zip_first_run =
     \<lparr>tree =
        Dir [(''submissions'', Dir [(''smith_john.zip'', File ''doc''), (''zzz'', File ''q'')]),
             (''organized_submissions'',
              Dir [(''7_Smith_John'',
                    Dir [(''x.docx'', File ''doc''), (''x.pdf'', File ''%PDF doc'')])])],
      files_seen = 2, matched = 1, unmatched = 1, converted = 1,
      convert_failed = 0, skipped_existing_file = 0,
      conversions =
        [([''organized_submissions'', ''7_Smith_John'', ''x.docx''],
          Dir [(''submissions'', Dir [(''smith_john.zip'', File ''doc''), (''zzz'', File ''q'')]),
               (''organized_submissions'',
                Dir [(''7_Smith_John'', Dir [(''x.docx'', File ''doc'')])])])]\<rparr>"


lemma sample_zip_first_run:
  "organize_and_convert sample_externals roster1 zip_inbox = Inr zip_first_run"
  by code_simp


lemma plain_roster1: "plain_roster roster1"
  by code_simp

theorem input_directory_unchanged_witness:
  "organize_and_convert sample_externals roster1 zip_inbox = Inr zip_first_run
   \<and> plain_roster roster1
   \<and> lookup (tree zip_first_run) INPUT_DIR = lookup zip_inbox INPUT_DIR
   \<and> lookup zip_inbox INPUT_DIR
       = Some (Dir [(''smith_john.zip'', File ''doc''), (''zzz'', File ''q'')])"
proof -
  from input_directory_unchanged[OF sample_zip_first_run plain_roster1, of "[]"]
  have "lookup (tree zip_first_run) INPUT_DIR = lookup zip_inbox INPUT_DIR" by simp
  moreover have "lookup zip_inbox INPUT_DIR
       = Some (Dir [(''smith_john.zip'', File ''doc''), (''zzz'', File ''q'')])"
    by code_simp
  ultimately show ?thesis using sample_zip_first_run plain_roster1 by simp
qed

text \<open>A roster whose index leads from the output directory to the input directory.\<close>

definition escaping_roster :: "row list" where
  "escaping_roster =
     [[(''index'', ''../submissions/7''), (''surname'', ''Smith''), (''first_name'', ''John'')]]"

definition escaped_run :: run_state where
  "escaped_run =
     \<lparr>tree =
        Dir [(''submissions'',
              Dir [(''john smith.docx'', File ''essay''),
                   (''7_Smith_John'',
                    Dir [(''john smith.docx'', File ''essay''),
                         (''john smith.pdf'', File ''%PDF essay'')])]),
             (''organized_submissions'', Dir [])],
      files_seen = 1, matched = 1, unmatched = 0, converted = 1,
      convert_failed = 0, skipped_existing_file = 0,
      conversions =
        [([''submissions'', ''7_Smith_John'', ''john smith.docx''],
          Dir [(''submissions'',
                Dir [(''john smith.docx'', File ''essay''),
                     (''7_Smith_John'', Dir [(''john smith.docx'', File ''essay'')])]),
               (''organized_submissions'', Dir [])])]\<rparr>"

text \<open>
  Claim C9 fails for a record whose index leads out of the output directory. The
  surname and the first name are sanitized, the index is joined as it is: with the
  index \<open>../submissions/7\<close> the target folder is \<open>submissions/7_Smith_John\<close>, and the run
  creates it in the input directory and puts the copy and its PDF there.
\<close>

theorem index_reaches_input_directory:
  "organize_and_convert sample_externals escaping_roster inbox = Inr escaped_run
   \<and> lookup inbox INPUT_DIR = Some (Dir [(''john smith.docx'', File ''essay'')])
   \<and> lookup (tree escaped_run) INPUT_DIR
       = Some (Dir [(''john smith.docx'', File ''essay''),
                    (''7_Smith_John'',
                     Dir [(''john smith.docx'', File ''essay''),
                          (''john smith.pdf'', File ''%PDF essay'')])])"
  by code_simp








section \<open>The rar branch of the extraction\<close>

text \<open>
  Claim C3 fails on a rar archive whose extraction raises after a member in a
  subdirectory was written: \<open>extract_and_flatten_archive\<close> returns before the flattening
  pass, and the target directory keeps \<open>sub/a.txt\<close>. (The zip branch goes on to the
  flattening pass after a failure.)
\<close>

definition rar_inbox :: node where
  "rar_inbox = Dir [(''submissions'', Dir [(''smith_john.rar'', File ''notes'')])]"

theorem rar_failure_not_flattened:
  "extract_and_flatten_archive sample_externals rar_inbox [''submissions'', ''smith_john.rar'']
     [''organized_submissions'', ''7_Smith_John'']
   = Inr (Dir [(''submissions'', Dir [(''smith_john.rar'', File ''notes'')]),
               (''organized_submissions'',
                Dir [(''7_Smith_John'', Dir [(''sub'', Dir [(''a.txt'', File ''notes'')])])])])"
  by code_simp

section \<open>Exceptions in the per-file step\<close>

text \<open>
  The flattening pass cannot raise: each file the walk lists is still where it was when
  its turn comes, and its destination name is free.
\<close>

lemma foldE_append:
  "foldE f (xs @ ys) s = (case foldE f xs s of Inl e \<Rightarrow> Inl e | Inr s' \<Rightarrow> foldE f ys s')"
  by (induction xs arbitrary: s) (auto split: sum.splits)

lemma foldE_nested:
  "foldE (\<lambda>(r, ds, fls). foldE (g r) fls) triples s
     = foldE (\<lambda>(r, f). g r f) (walk_files triples) s"
proof (induction triples arbitrary: s)
  case Nil
  then show ?case by (simp add: walk_files_def)
next
  case (Cons t ts)
  obtain r ds fls where t: "t = (r, ds, fls)" by (cases t)
  have w: "walk_files (t # ts) = map (Pair r) fls @ walk_files ts"
    by (simp add: walk_files_def t)
  have inner: "foldE (\<lambda>(r, f). g r f) (map (Pair r) fls) s = foldE (g r) fls s" for s
    by (induction fls arbitrary: s) (auto split: sum.splits)
  have "foldE (\<lambda>(r, f). g r f) (walk_files (t # ts)) s
        = (case foldE (g r) fls s of Inl e \<Rightarrow> Inl e
           | Inr s' \<Rightarrow> foldE (\<lambda>(r, f). g r f) (walk_files ts) s')"
    unfolding w by (simp add: foldE_append inner)
  then show ?case
    by (simp add: t Cons.IH split: sum.splits)
qed

lemma isdir_prefix: "isdir fs p \<Longrightarrow> prefix q p \<Longrightarrow> isdir fs q"
proof -
  assume d: "isdir fs p" and "prefix q p"
  then obtain r where p: "p = q @ r" by (auto simp: prefix_def)
  show ?thesis
  proof (cases "r = []")
    case True
    with d p show ?thesis by simp
  next
    case False
    from d p have "stat fs (q @ r) \<noteq> None" by (simp add: isdir_stat)
    from stat_prefix_dir[OF this False] show ?thesis by (simp add: isdir_stat)
  qed
qed



lemma write_members_isdir:
  "isdir fs e \<Longrightarrow> isdir (fst (write_members fs e ms)) e"
proof (induction ms arbitrary: fs)
  case Nil
  then show ?case by simp
next
  case (Cons m ms)
  obtain name c where m: "m = (name, c)" by (cases m)
  define rel where "rel = filter (\<lambda>x. x \<noteq> [] \<and> x \<noteq> ''.'' \<and> x \<noteq> ''..'') name"
  show ?case
  proof (cases "makedirs fs (e @ butlast rel)")
    case (Inl a)
    with Cons.prems show ?thesis by (simp add: m rel_def)
  next
    case (Inr fs1)
    from makedirs_stat[OF Inr, of e] have d1: "isdir fs1 e" by (simp add: isdir_stat)
    show ?thesis
    proof (cases "write_file fs1 (e @ rel) c")
      case (Inl a)
      with Inr d1 show ?thesis by (simp add: m rel_def)
    next
      case (Inr fs2)
      then have nd: "\<not> isdir fs1 (e @ rel)" and p: "put (e @ rel) (File c) fs1 = Inr fs2"
        by (auto simp: write_file_def split: if_splits)
      from nd d1 have "e @ rel \<noteq> e" by auto
      with put_file_stat[OF p nd, of e] d1 have "isdir fs2 e" by (simp add: isdir_stat)
      from Cons.IH[OF this] \<open>makedirs fs (e @ butlast rel) = Inr fs1\<close> Inr show ?thesis
        by (simp add: m rel_def)
    qed
  qed
qed

lemma extractall_isdir: "isdir fs e \<Longrightarrow> isdir (fst (extractall x fs e)) e"
  using write_members_isdir[of fs e] by (cases x) (auto simp: extractall_def split_beta)

lemma flatten_entries_total:
  assumes "isdir fs e" and "distinct (map (\<lambda>(r, f). r @ [f]) ents)"
    and "\<forall>(r, f) \<in> set ents. r \<noteq> e \<longrightarrow> (\<exists>c. lookup fs (r @ [f]) = Some (File c))"
  shows "\<exists>fs'. foldE (\<lambda>(r, f). flatten_file e r f) ents fs = Inr fs'"
  using assms
proof (induction ents arbitrary: fs)
  case Nil
  then show ?case by simp
next
  case (Cons x ents)
  obtain r f where x: "x = (r, f)" by (cases x)
  show ?case
  proof (cases "r = e")
    case True
    then have "flatten_file e r f fs = Inr fs" by (simp add: flatten_file_def)
    moreover have "\<exists>fs'. foldE (\<lambda>(r, f). flatten_file e r f) ents fs = Inr fs'"
      by (rule Cons.IH) (use Cons.prems in auto)
    ultimately show ?thesis by (simp add: x)
  next
    case False
    with Cons.prems(3) x obtain c where c: "lookup fs (r @ [f]) = Some (File c)" by auto
    from flatten_file_ok[OF c False Cons.prems(1)] obtain fs1 cand where
      fl: "flatten_file e r f fs = Inr fs1" and cf: "collision_free fs (e @ [f]) cand"
      and st: "\<forall>q. stat fs1 q = (if q = cand then Some (KFile c)
                           else if q = r @ [f] then None else stat fs q)" by blast
    from cf have nc: "stat fs cand = None" by (simp add: collision_free_def path_exists_stat)
    have d1: "isdir fs1 e"
    proof -
      from Cons.prems(1) have "stat fs e = Some KDir" by (simp add: isdir_stat)
      moreover from this nc have "e \<noteq> cand" by auto
      moreover from \<open>stat fs e = Some KDir\<close> c have "e \<noteq> r @ [f]" by (auto simp: stat_def)
      ultimately show ?thesis using st by (simp add: isdir_stat)
    qed
    have rest: "\<forall>(r', f') \<in> set ents. r' \<noteq> e \<longrightarrow> (\<exists>c. lookup fs1 (r' @ [f']) = Some (File c))"
    proof (intro ballI, clarify)
      fix r' f' assume m: "(r', f') \<in> set ents" and ne: "r' \<noteq> e"
      with Cons.prems(3) obtain c' where c': "lookup fs (r' @ [f']) = Some (File c')" by auto
      then have s: "stat fs (r' @ [f']) = Some (KFile c')" by (simp add: lookup_File_stat)
      with nc have n1: "r' @ [f'] \<noteq> cand" by auto
      from Cons.prems(2) m x have n2: "r' @ [f'] \<noteq> r @ [f]" by (auto simp: image_iff)
      from st s n1 n2 have "stat fs1 (r' @ [f']) = Some (KFile c')" by simp
      then show "\<exists>c. lookup fs1 (r' @ [f']) = Some (File c)" by (auto simp: lookup_File_stat)
    qed
    have "\<exists>fs'. foldE (\<lambda>(r, f). flatten_file e r f) ents fs1 = Inr fs'"
      by (rule Cons.IH[OF d1 _ rest]) (use Cons.prems(2) in simp)
    with fl show ?thesis by (simp add: x)
  qed
qed

lemma flatten_total: "\<exists>fs'. flatten e fs = Inr fs'"
proof (cases "isdir_at fs e")
  case False
  then show ?thesis by (simp add: flatten_def flatten_files_def walk_at_def)
next
  case True
  let ?d = "abspath e"
  let ?ents = "walk_files (walk fs ?d True)"
  have files: "\<forall>(r, f) \<in> set ?ents. r \<noteq> ?d \<longrightarrow> (\<exists>c. lookup fs (r @ [f]) = Some (File c))"
    by (auto simp: in_walk_files dest: walk_file)
  from flatten_entries_total[OF isdir_at_abspath[OF True] walk_files_distinct files]
  obtain fs1 where "foldE (\<lambda>(r, f). flatten_file ?d r f) ?ents fs = Inr fs1" by blast
  with True have "flatten_files e fs = Inr fs1"
    by (simp add: flatten_files_def walk_at_def foldE_nested)
  then show ?thesis by (simp add: flatten_def)
qed

lemma extract_and_flatten_archive_total:
  assumes "isdir_at fs e"
  shows "\<exists>fs'. extract_and_flatten_archive ext fs archive_path e = Inr fs'"
proof -
  note mk = os_makedirs_existing[OF assms]
  from flatten_total[of e] show ?thesis
    by (auto simp: extract_and_flatten_archive_def mk split: prod.splits)
qed

lemma place_file_total:
  assumes "isfile (tree st) (INPUT_DIR @ [fname])" and "isdir_at (tree st) name"
  shows "\<exists>st'. place_file ext fname name st = Inr st'"
proof (cases "path_exists (tree st) (abspath name @ [basename (INPUT_DIR @ [fname])])")
  case True
  then show ?thesis by (simp add: place_file_def Let_def)
next
  case False
  note ne = this
  show ?thesis
  proof (cases "is_archive_name fname")
    case True
    note t = isdir_at_abspath[OF assms(2)]
    from extract_and_flatten_archive_total[OF assms(2), of ext "INPUT_DIR @ [fname]"]
    obtain fs' where "extract_and_flatten_archive ext (tree st) (INPUT_DIR @ [fname]) name = Inr fs'"
      by blast
    with ne True show ?thesis by (simp add: place_file_def Let_def)
  next
    case False
    from assms(1) obtain c where c: "lookup (tree st) (INPUT_DIR @ [fname]) = Some (File c)"
      by (auto simp: isfile_def split: option.splits node.splits)
    have "abspath name @ [basename (INPUT_DIR @ [fname])] \<noteq> []"
      "isdir (tree st) (dirname (abspath name @ [basename (INPUT_DIR @ [fname])]))"
      using isdir_at_abspath[OF assms(2)] by (simp_all add: dirname_def)
    from safe_copy_ok[OF c this] obtain fs' cand where
      "safe_copy (tree st) (INPUT_DIR @ [fname]) (abspath name @ [basename (INPUT_DIR @ [fname])])
         = Inr (fs', cand)"
      by blast
    with ne False show ?thesis by (simp add: place_file_def Let_def)
  qed
qed

lemma convert_file_tally:
  "converted (convert_file ext r f st) + convert_failed (convert_file ext r f st)
     + length (conversions st)
   = converted st + convert_failed st + length (conversions (convert_file ext r f st))"
  by (auto simp: convert_file_def Let_def split: prod.splits)

lemma fold_tally:
  assumes "\<And>x a. g (f x a) + h a = g a + h (f x a)"
  shows "g (fold f xs s) + h s = (g s :: nat) + h (fold f xs s)"
proof (induction xs arbitrary: s)
  case Nil
  then show ?case by simp
next
  case (Cons x xs)
  from Cons.IH[of "f x s"] assms[of x s] show ?case by simp
qed

lemma convert_folder_tally:
  "converted (convert_folder ext t st) + convert_failed (convert_folder ext t st)
     + length (conversions st)
   = converted st + convert_failed st + length (conversions (convert_folder ext t st))"
proof -
  let ?g = "\<lambda>s. converted s + convert_failed s" and ?h = "\<lambda>s. length (conversions s)"
  have inner: "?g (fold (convert_file ext r) fls a) + ?h a = ?g a + ?h (fold (convert_file ext r) fls a)"
    for r fls a
    by (rule fold_tally[where g = ?g and h = ?h]) (use convert_file_tally in simp)
  have "?g (convert_folder ext t st) + ?h st = ?g st + ?h (convert_folder ext t st)"
    unfolding convert_folder_def
    by (rule fold_tally[where g = ?g and h = ?h]) (use inner in \<open>simp add: split_beta\<close>)
  then show ?thesis by simp
qed

text \<open>
  Claim C2, as amended. The per-file step \<open>process_entry\<close> raises only the exception that
  \<open>os.makedirs\<close> raises for the target folder of the matched record; whatever the
  extraction and the converter do (any archive, a failing or missing codec, a failing
  or missing LibreOffice), placing and converting return. When the step returns, a
  matched regular file is counted as matched, and every call of the converter is
  counted as \<open>converted\<close> or as \<open>convert_failed\<close>.
\<close>

theorem only_folder_creation_aborts:
  "(process_entry ext rows fname st = Inl e \<longrightarrow>
      (\<exists>matched_row how.
          find_best_row_for_filename ext fname rows 2 (6 / 10) = (Some matched_row, how)
          \<and> os_makedirs (tree st) (join_name OUTPUT_DIR (folder_name_of matched_row)) = Inl e))
   \<and> (process_entry ext rows fname st = Inr st' \<longrightarrow>
        matched st' = matched st
           + (if visible fname \<and> isfile (tree st) (INPUT_DIR @ [fname]) \<and> has_match ext rows fname
              then 1 else 0)
        \<and> converted st' + convert_failed st' + length (conversions st)
            = converted st + convert_failed st + length (conversions st'))"
proof (intro conjI impI)
  assume a: "process_entry ext rows fname st = Inl e"
  let ?st1 = "st\<lparr>files_seen := files_seen st + 1\<rparr>"
  from a have nh: "\<not> startswith fname ''.''" by (auto simp: process_entry_def)
  from a nh have isf: "isfile (tree st) (INPUT_DIR @ [fname])"
    by (auto simp: process_entry_def Let_def split: if_splits)
  obtain m how where fb: "find_best_row_for_filename ext fname rows 2 (6 / 10) = (m, how)"
    by (cases "find_best_row_for_filename ext fname rows 2 (6 / 10)")
  from a nh isf fb obtain r where m: "m = Some r"
    by (cases m) (auto simp: process_entry_def Let_def)
  let ?t = "join_name OUTPUT_DIR (folder_name_of r)"
  have "os_makedirs (tree st) ?t = Inl e"
  proof (cases "os_makedirs (tree st) ?t")
    case (Inl e')
    with a nh isf fb m show ?thesis by (simp add: process_entry_def Let_def)
  next
    case (Inr fs1)
    from os_makedirs_isdir_at[OF Inr target_folder_not_dot] have d: "isdir_at fs1 ?t" .
    from extends_isfile[OF os_makedirs_extends[OF Inr] isf]
    have f1: "isfile fs1 (INPUT_DIR @ [fname])" .
    from place_file_total[of "?st1\<lparr>tree := fs1\<rparr>" fname ?t ext] d f1
    obtain st2 where "place_file ext fname ?t (?st1\<lparr>tree := fs1\<rparr>) = Inr st2" by auto
    with a nh isf fb m Inr show ?thesis by (simp add: process_entry_def Let_def)
  qed
  with fb m show "\<exists>matched_row how.
          find_best_row_for_filename ext fname rows 2 (6 / 10) = (Some matched_row, how)
          \<and> os_makedirs (tree st) (join_name OUTPUT_DIR (folder_name_of matched_row)) = Inl e"
    by blast
next
  assume a: "process_entry ext rows fname st = Inr st'"
  from process_entry_counters(2)[OF a]
  show "matched st' = matched st
           + (if visible fname \<and> isfile (tree st) (INPUT_DIR @ [fname]) \<and> has_match ext rows fname
              then 1 else 0)" .
  show "converted st' + convert_failed st' + length (conversions st)
            = converted st + convert_failed st + length (conversions st')"
  proof (cases "startswith fname ''.''")
    case True
    with a show ?thesis by (simp add: process_entry_def)
  next
    case False
    note nh = this
    let ?st1 = "st\<lparr>files_seen := files_seen st + 1\<rparr>"
    show ?thesis
    proof (cases "isfile (tree st) (INPUT_DIR @ [fname])")
      case False
      with nh a have "st' = ?st1" by (simp add: process_entry_def Let_def)
      then show ?thesis by simp
    next
      case True
      note isf = this
      obtain m how where fb: "find_best_row_for_filename ext fname rows 2 (6 / 10) = (m, how)"
        by (cases "find_best_row_for_filename ext fname rows 2 (6 / 10)")
      show ?thesis
      proof (cases m)
        case None
        with nh isf fb a have "st' = ?st1\<lparr>unmatched := unmatched ?st1 + 1\<rparr>"
          by (simp add: process_entry_def Let_def)
        then show ?thesis by simp
      next
        case (Some r)
        let ?t = "join_name OUTPUT_DIR (folder_name_of r)"
        from nh isf fb Some a obtain fs1 st2 where
          pl: "place_file ext fname ?t (?st1\<lparr>tree := fs1\<rparr>) = Inr st2"
          and st': "st' = (convert_folder ext ?t st2)\<lparr>matched := matched (convert_folder ext ?t st2) + 1\<rparr>"
          by (auto simp: process_entry_def Let_def split: sum.splits)
        from place_file_counters[OF pl] place_file_conversions[OF pl]
        have "converted st2 = converted st" "convert_failed st2 = convert_failed st"
          "conversions st2 = conversions st" by simp_all
        with convert_folder_tally[of ext ?t st2] show ?thesis unfolding st' by simp
      qed
    qed
  qed
qed

text \<open>
  The target folder's name is taken by a regular file: \<open>os.makedirs\<close> raises
  \<open>FileExistsError\<close> and so does the step. A rar archive whose extraction fails: the step
  returns and the file is counted as matched.
\<close>

definition blocked_inbox :: node where
  "blocked_inbox =
     Dir [(''submissions'',
           Dir [(''john smith.docx'', File ''essay''), (''smith john notes.txt'', File ''notes'')]),
          (''organized_submissions'', Dir [(''7_Smith_John'', File ''not a folder'')])]"

definition rar_step :: run_state where
  "rar_step =
     \<lparr>tree =
        Dir [(''submissions'', Dir [(''smith_john.rar'', File ''notes'')]),
             (''organized_submissions'',
              Dir [(''7_Smith_John'', Dir [(''sub'', Dir [(''a.txt'', File ''notes'')])])])],
      files_seen = 1, matched = 1, unmatched = 0, converted = 0,
      convert_failed = 0, skipped_existing_file = 0, conversions = []\<rparr>"

theorem only_folder_creation_aborts_witness:
  "process_entry sample_externals roster1 ''john smith.docx'' (initial_state blocked_inbox)
     = Inl FileExistsError
   \<and> (\<exists>matched_row how.
          find_best_row_for_filename sample_externals ''john smith.docx'' roster1 2 (6 / 10)
            = (Some matched_row, how)
          \<and> os_makedirs blocked_inbox (join_name OUTPUT_DIR (folder_name_of matched_row))
              = Inl FileExistsError)
   \<and> process_entry sample_externals roster1 ''smith_john.rar'' (initial_state rar_inbox)
     = Inr rar_step
   \<and> matched rar_step = 1"
proof -
  have a: "process_entry sample_externals roster1 ''john smith.docx'' (initial_state blocked_inbox)
     = Inl FileExistsError" by code_simp
  have b: "process_entry sample_externals roster1 ''smith_john.rar'' (initial_state rar_inbox)
     = Inr rar_step" by code_simp
  have t: "tree (initial_state blocked_inbox) = blocked_inbox" by (simp add: initial_state_def)
  note t1 = only_folder_creation_aborts[of sample_externals roster1 "''john smith.docx''"
      "initial_state blocked_inbox" FileExistsError rar_step, THEN conjunct1, THEN mp, OF a]
  note t2 = only_folder_creation_aborts[of sample_externals roster1 "''smith_john.rar''"
      "initial_state rar_inbox" FileExistsError rar_step, THEN conjunct2, THEN mp, OF b]
  from t2 have "matched rar_step = 1" by (simp add: rar_step_def)
  with a b t1 show ?thesis by (simp add: t)
qed

text \<open>
  Claim C2 as stated fails: the loop has no handler, so the exception of the folder
  creation ends the whole run; the second input file is never processed.
\<close>

theorem run_aborted_counterexample:
  "organize_and_convert sample_externals roster1 blocked_inbox = Inl FileExistsError"
  by code_simp

section \<open>A second run\<close>

text \<open>
  What a second run finds. Without archives a run only adds to the tree: directories,
  copies under names that were free, and PDFs beside documents that had none. So the
  folder of a placed file can still be read when the second run comes, the file is
  there, and every document below the folder has its PDF or is one for which the
  converter produces nothing; the second run then skips the copy and changes nothing.
\<close>

subsection \<open>Trees that only gain entries\<close>

definition persists :: "node \<Rightarrow> node \<Rightarrow> bool" where
  "persists fs fs' \<longleftrightarrow> (\<forall>q k. stat fs q = Some k \<longrightarrow> stat fs' q = Some k)"

lemma persists_refl [simp]: "persists fs fs"
  by (simp add: persists_def)








subsection \<open>The walk lists every file below its top\<close>



subsection \<open>Documents that need no conversion\<close>






definition adds_pdfs :: "node \<Rightarrow> node \<Rightarrow> bool" where
  "adds_pdfs fs fs' \<longleftrightarrow>
     (\<forall>q. stat fs' q = stat fs q
          \<or> (stat fs q = None \<and> q \<noteq> [] \<and> \<not> endswith (lower (last q)) ''.docx''
              \<and> (\<exists>c. stat fs' q = Some (KFile c))))"

lemma adds_pdfs_refl [simp]: "adds_pdfs fs fs"
  by (simp add: adds_pdfs_def)































end
